theory Spec2Isabelle
  imports Main "HOL-Library.Sublist"
begin

unbundle bit_operations_syntax

section \<open>JavaScript values used by nmapsim.js\<close>

text \<open>
  Strings are modelled as \<open>string\<close> (the program only ever handles ASCII command lines and
  dataset fields). A JavaScript Number is an \<open>int\<close> wherever the program can only produce an
  integer, and a \<open>number\<close> (\<open>None\<close> is NaN) where a conversion from a string may fail.
  An uncaught exception is the value \<open>Inl TypeError\<close>.
\<close>

type_synonym number = "int option"

datatype js_error = TypeError

subsection \<open>Number to string, string to Number\<close>

definition digit_char :: "nat \<Rightarrow> char" where
  "digit_char d = char_of (48 + d)"

definition is_digit :: "char \<Rightarrow> bool" where
  "is_digit c = (48 \<le> (of_char c :: nat) \<and> (of_char c :: nat) \<le> 57)"

definition digit_val :: "char \<Rightarrow> nat" where
  "digit_val c = of_char c - 48"

fun dec :: "nat \<Rightarrow> string" where
  "dec n = (if n < 10 then [digit_char n] else dec (n div 10) @ [digit_char (n mod 10)])"

declare dec.simps [simp del]

text \<open>String concatenation with a Number operand (\<open>"" + n\<close>) for an integral Number.\<close>

definition num_str :: "int \<Rightarrow> string" where
  "num_str i = (if i < 0 then CHR ''-'' # dec (nat (- i)) else dec (nat i))"

text \<open>The same for a Number that may be NaN.\<close>

definition number_str :: "number \<Rightarrow> string" where
  "number_str x = (case x of None \<Rightarrow> ''NaN'' | Some i \<Rightarrow> num_str i)"

definition digits_val :: "string \<Rightarrow> nat" where
  "digits_val ds = foldl (\<lambda>acc c. 10 * acc + digit_val c) 0 ds"

definition is_ws :: "char \<Rightarrow> bool" where
  "is_ws c = (c \<in> set [CHR '' '', CHR 0x09, CHR 0x0A, CHR 0x0B, CHR 0x0C, CHR 0x0D])"

text \<open>
  \<open>parseInt(s, 10)\<close>: leading white space is skipped, an optional sign is read, then the
  longest run of decimal digits; NaN when there is no digit. (The loss of precision of a
  double beyond \<open>2^53\<close> is not modelled; the program parses fields of at most three digits.)
\<close>

definition parseInt :: "string \<Rightarrow> number" where
  "parseInt s =
     (let s1 = dropWhile is_ws s;
          neg = (case s1 of [] \<Rightarrow> False | c # _ \<Rightarrow> c = CHR ''-'');
          s2 = (case s1 of [] \<Rightarrow> [] | c # cs \<Rightarrow> if c = CHR ''-'' \<or> c = CHR ''+'' then cs else s1);
          ds = takeWhile is_digit s2
      in if ds = [] then None
         else Some (if neg then - int (digits_val ds) else int (digits_val ds)))"

text \<open>\<open>s.trim()\<close>: white space is the blank and the ASCII control characters 9 to 13.\<close>

definition js_trim :: "string \<Rightarrow> string" where
  "js_trim s = rev (dropWhile is_ws (rev (dropWhile is_ws s)))"

text \<open>
  \<open>Number(s)\<close> for a string: white space is trimmed, the empty string is 0, an optionally
  signed run of decimal digits is its value. Every other string is NaN in the model; the
  further numeric literals of JavaScript (hexadecimal, fractions, exponents, Infinity) are
  given as NaN here, none of them is a field of an address token or a port number.
\<close>

definition Number :: "string \<Rightarrow> number" where
  "Number s =
     (let t = js_trim s;
          neg = (case t of [] \<Rightarrow> False | c # _ \<Rightarrow> c = CHR ''-'');
          ds = (case t of [] \<Rightarrow> [] | c # cs \<Rightarrow> if c = CHR ''-'' \<or> c = CHR ''+'' then cs else t)
      in if t = [] then Some 0
         else if ds \<noteq> [] \<and> list_all is_digit ds
         then Some (if neg then - int (digits_val ds) else int (digits_val ds))
         else None)"

subsection \<open>String methods\<close>

text \<open>\<open>s.split(c)\<close> for a one-character separator: never the empty list.\<close>

fun js_split :: "char \<Rightarrow> string \<Rightarrow> string list" where
  "js_split c [] = [[]]"
| "js_split c (x # xs) =
     (if x = c then [] # js_split c xs
      else (case js_split c xs of [] \<Rightarrow> [[x]] | w # ws \<Rightarrow> (x # w) # ws))"

text \<open>\<open>s.includes(t)\<close>: \<open>t\<close> occurs in \<open>s\<close> as a contiguous substring.\<close>

fun js_includes :: "string \<Rightarrow> string \<Rightarrow> bool" where
  "js_includes [] t = (t = [])"
| "js_includes (x # xs) t = (prefix t (x # xs) \<or> js_includes xs t)"

text \<open>
  \<open>s.replace(t, "")\<close> with a string pattern \<open>t\<close>: the first (leftmost) occurrence of
  \<open>t\<close> is removed, and \<open>s\<close> is returned as it is when \<open>t\<close> does not occur.
\<close>

fun js_replace_first :: "string \<Rightarrow> string \<Rightarrow> string" where
  "js_replace_first t [] = []"
| "js_replace_first t (x # xs) =
     (if prefix t (x # xs) then drop (length t) (x # xs) else x # js_replace_first t xs)"

subsection \<open>32-bit operators\<close>

definition ToInt32 :: "int \<Rightarrow> int" where
  "ToInt32 x = signed_take_bit 31 x"

definition ToUint32 :: "int \<Rightarrow> int" where
  "ToUint32 x = take_bit 32 x"

text \<open>\<open>a << n\<close>, \<open>a >> n\<close>, \<open>a >>> n\<close>, \<open>a & b\<close>; the shift count is taken modulo 32.\<close>

definition js_shl :: "int \<Rightarrow> int \<Rightarrow> int" where
  "js_shl a n = ToInt32 (push_bit (nat (ToUint32 n mod 32)) (ToInt32 a))"

definition js_shr :: "int \<Rightarrow> int \<Rightarrow> int" where
  "js_shr a n = drop_bit (nat (ToUint32 n mod 32)) (ToInt32 a)"

definition js_ushr :: "int \<Rightarrow> int \<Rightarrow> int" where
  "js_ushr a n = drop_bit (nat (ToUint32 n mod 32)) (ToUint32 a)"

definition js_and :: "int \<Rightarrow> int \<Rightarrow> int" where
  "js_and a b = ToInt32 a AND ToInt32 b"

section \<open>Regular expressions\<close>

text \<open>
  The fragment of the regular expressions of the program: a character, a character class
  \<open>[a-b]\<close>, sequence, alternative, \<open>r?\<close>, \<open>r+\<close> and the anchor \<open>$\<close>. Groups capture
  nothing the program reads, so capturing and non-capturing groups are not told apart.
\<close>

datatype rx = Chr char | Rng char char | Seq rx rx | Alt rx rx | Opt rx | Plus rx | Eol

text \<open>
  The backtracking matcher: \<open>rx_rest r s\<close> lists what is left of \<open>s\<close> after each way of
  matching \<open>r\<close> at its start, in the order in which a backtracking engine tries them (left
  alternative first, quantifiers greedy). \<open>$\<close> holds only at the end of the input (no \<open>m\<close>
  flag is used). An iteration of \<open>+\<close> that consumed nothing is not repeated.
\<close>

fun rx_rest :: "rx \<Rightarrow> string \<Rightarrow> string list" where
  "rx_rest (Chr c) s = (case s of [] \<Rightarrow> [] | x # xs \<Rightarrow> if x = c then [xs] else [])"
| "rx_rest (Rng a b) s =
     (case s of [] \<Rightarrow> []
      | x # xs \<Rightarrow> if (of_char a :: nat) \<le> of_char x \<and> (of_char x :: nat) \<le> of_char b
                  then [xs] else [])"
| "rx_rest (Seq r1 r2) s = concat (map (rx_rest r2) (rx_rest r1 s))"
| "rx_rest (Alt r1 r2) s = rx_rest r1 s @ rx_rest r2 s"
| "rx_rest (Opt r) s = rx_rest r s @ [s]"
| "rx_rest (Plus r) s =
     concat (map (\<lambda>s'. if length s' < length s then rx_rest (Plus r) s' @ [s'] else [s'])
                 (rx_rest r s))"
| "rx_rest Eol s = (if s = [] then [s] else [])"

text \<open>
  \<open>s.match(r)\<close> without the \<open>g\<close> flag, element 0 of the result: the match is searched from
  the leftmost start index on, and at an index the first successful way of matching wins.
  \<open>None\<close> is \<open>null\<close>.
\<close>

fun js_match :: "rx \<Rightarrow> string \<Rightarrow> string option" where
  "js_match r s =
     (case rx_rest r s of
        s' # _ \<Rightarrow> Some (take (length s - length s') s)
      | [] \<Rightarrow> (case s of [] \<Rightarrow> None | _ # xs \<Rightarrow> js_match r xs))"

declare js_match.simps [simp del]

text \<open>\<open>r.test(s)\<close>\<close>

definition js_test :: "rx \<Rightarrow> string \<Rightarrow> bool" where
  "js_test r s = (js_match r s \<noteq> None)"

text \<open>\<open>r.test(s)\<close> for a regular expression \<open>^r\<close>: only index 0 is tried.\<close>

definition js_test_at_start :: "rx \<Rightarrow> string \<Rightarrow> bool" where
  "js_test_at_start r s = (rx_rest r s \<noteq> [])"

section \<open>Address helpers (lines 44-55)\<close>

text \<open>The operand conversion of the 32-bit operators takes NaN as 0.\<close>

definition nan0 :: "number \<Rightarrow> int" where
  "nan0 x = (case x of None \<Rightarrow> 0 | Some i \<Rightarrow> i)"

definition num_add :: "number \<Rightarrow> number \<Rightarrow> number" where
  "num_add x y = (case x of None \<Rightarrow> None | Some a \<Rightarrow> (case y of None \<Rightarrow> None | Some b \<Rightarrow> Some (a + b)))"

definition int2ip :: "int \<Rightarrow> string" where
  "int2ip ip =
     num_str (js_ushr ip 24) @ ''.'' @ num_str (js_and (js_shr ip 16) 255) @ ''.'' @
     num_str (js_and (js_shr ip 8) 255) @ ''.'' @ num_str (js_and ip 255)"

definition ip2int :: "string \<Rightarrow> int" where
  "ip2int ip =
     js_ushr (nan0 (foldl (\<lambda>ipInt octet. num_add (Some (js_shl (nan0 ipInt) 8)) (parseInt octet))
                          (Some 0) (js_split CHR ''.'' ip))) 0"

text \<open>
  An array element that may be missing: \<open>xs[i]\<close> is \<open>undefined\<close> (here \<open>None\<close>) beyond the
  end of the array, and \<open>Number(undefined)\<close> is NaN.
\<close>

fun js_index :: "'a list \<Rightarrow> nat \<Rightarrow> 'a option" where
  "js_index [] i = None"
| "js_index (x # xs) 0 = Some x"
| "js_index (x # xs) (Suc i) = js_index xs i"

definition Number_of :: "string option \<Rightarrow> number" where
  "Number_of v = (case v of None \<Rightarrow> None | Some s \<Rightarrow> Number s)"

text \<open>
  \<open>subnetMaskToNumber(mask)\<close>: a NaN shift count is 0.
\<close>

definition subnetMaskToNumber :: "string option \<Rightarrow> int" where
  "subnetMaskToNumber mask' =
     js_and (js_shl 0xffffffff (nan0 (num_add (Some 32) (map_option uminus (Number_of mask')))))
            0xffffffff"

text \<open>
  \<open>_.range(start, end)\<close> of the lodash library, which the program loads from outside the
  repository: both arguments are made finite numbers (NaN is 0), the step is 1 when
  \<open>start < end\<close> and \<open>-1\<close> otherwise, and the numbers from \<open>start\<close> on are listed up to,
  not including, \<open>end\<close>.
\<close>

definition lodash_range :: "number \<Rightarrow> number \<Rightarrow> int list" where
  "lodash_range start end' =
     (let a = nan0 start; b = nan0 end';
          step = (if a < b then 1 else - 1)
      in map (\<lambda>k. a + int k * step) [0 ..< nat ((b - a) div step)])"

section \<open>The regular expressions of the parser (lines 73-83)\<close>

definition octet :: rx where
  "octet =
     Alt (Seq (Chr CHR ''2'') (Seq (Chr CHR ''5'') (Rng CHR ''0'' CHR ''5'')))
    (Alt (Seq (Chr CHR ''2'') (Seq (Rng CHR ''0'' CHR ''4'') (Rng CHR ''0'' CHR ''9'')))
    (Alt (Seq (Chr CHR ''1'') (Seq (Rng CHR ''0'' CHR ''9'') (Rng CHR ''0'' CHR ''9'')))
    (Alt (Seq (Rng CHR ''1'' CHR ''9'') (Rng CHR ''0'' CHR ''9''))
         (Rng CHR ''0'' CHR ''9''))))"

text \<open>\<open>r{3}\<close>\<close>

definition rep3 :: "rx \<Rightarrow> rx" where
  "rep3 r = Seq r (Seq r r)"

definition dotted_quad :: rx where
  "dotted_quad = Seq (rep3 (Seq octet (Chr CHR ''.''))) octet"

text \<open>\<open>\/([4-9]|(3[0-2]?)|(2[0-9]?)|(1[0-9]?))\<close>\<close>

definition prefix_len :: rx where
  "prefix_len =
     Alt (Rng CHR ''4'' CHR ''9'')
    (Alt (Seq (Chr CHR ''3'') (Opt (Rng CHR ''0'' CHR ''2'')))
    (Alt (Seq (Chr CHR ''2'') (Opt (Rng CHR ''0'' CHR ''9'')))
         (Seq (Chr CHR ''1'') (Opt (Rng CHR ''0'' CHR ''9'')))))"

definition cidr_suffix :: rx where
  "cidr_suffix = Seq (Chr CHR ''/'') prefix_len"

definition octet_or_range :: rx where
  "octet_or_range = Seq octet (Opt (Seq (Chr CHR ''-'') octet))"

definition hyphen_quad :: rx where
  "hyphen_quad = Seq (rep3 (Seq octet_or_range (Chr CHR ''.''))) octet_or_range"

definition testStartStop :: rx where
  "testStartStop = Seq dotted_quad (Seq (Chr CHR ''-'') (Seq dotted_quad Eol))"

definition testNmapHyphenOrSingle :: rx where
  "testNmapHyphenOrSingle = Seq hyphen_quad Eol"

definition testCIDR :: rx where
  "testCIDR = Seq dotted_quad (Seq (Plus cidr_suffix) Eol)"

text \<open>\<open>testSingleIP\<close> without its leading \<open>^\<close>, which \<open>js_test_at_start\<close> stands for.\<close>

definition testSingleIP :: rx where
  "testSingleIP = Seq dotted_quad Eol"

definition testAnyMatch :: rx where
  "testAnyMatch =
     Alt (Seq dotted_quad (Seq (Chr CHR ''-'') (Seq dotted_quad Eol)))
    (Alt (Seq dotted_quad (Seq (Opt cidr_suffix) Eol))
         (Seq hyphen_quad Eol))"

section \<open>ListIPAddresses (lines 66-170)\<close>

text \<open>Lines 132-142: one field of the per-octet notation becomes the list of its numbers.\<close>

definition octet_list :: "string \<Rightarrow> number list" where
  "octet_list oct =
     (if js_includes oct ''-''
      then map Some (lodash_range (Number_of (js_index (js_split CHR ''-'' oct) 0))
                                  (num_add (Number_of (js_index (js_split CHR ''-'' oct) 1)) (Some 1)))
      else [Number oct])"

text \<open>
  Lines 89-158, the body of the loop for the matched text \<open>tok\<close>: the addresses it pushes.
  \<open>ip2int(undefined)\<close> and \<open>undefined.includes\<close> raise a TypeError.
\<close>

definition expand_token :: "string \<Rightarrow> js_error + string list" where
  "expand_token tok =
     (if js_test testStartStop tok then
        (case (js_index (js_split CHR ''-'' tok) 0, js_index (js_split CHR ''-'' tok) 1) of
           (Some startText, Some endText) \<Rightarrow>
              Inr (map int2ip [ip2int startText .. ip2int endText])
         | _ \<Rightarrow> Inl TypeError)
      else if js_test testCIDR tok then
        (case js_index (js_split CHR ''/'' tok) 0 of
           None \<Rightarrow> Inl TypeError
         | Some givenAddress \<Rightarrow>
            (let cidrSize = js_index (js_split CHR ''/'' tok) 1;
                 startAddress = js_and (ip2int givenAddress) (subnetMaskToNumber cidrSize)
             in case Number_of cidrSize of
                  None \<Rightarrow> Inr []
                | Some p \<Rightarrow>
                    if 32 < p then Inr []
                    else Inr (map int2ip [startAddress .. 2 ^ nat (32 - p) + startAddress - 1])))
      else if js_test_at_start testSingleIP tok then Inr [tok]
      else if js_test testNmapHyphenOrSingle tok \<and> \<not> js_test_at_start testSingleIP tok then
        (case js_split CHR ''.'' tok of
           octA # octB # octC # octD # _ \<Rightarrow>
             Inr (concat (map (\<lambda>octetA. concat (map (\<lambda>octetB. concat (map (\<lambda>octetC.
                    map (\<lambda>octetD. number_str octetA @ ''.'' @ number_str octetB @ ''.'' @
                                    number_str octetC @ ''.'' @ number_str octetD)
                        (octet_list octD))
                    (octet_list octC)))
                    (octet_list octB)))
                    (octet_list octA)))
         | _ \<Rightarrow> Inl TypeError)
      else Inr [])"

text \<open>Line 162: the matched text is taken out of the command, which is trimmed again.\<close>

definition strip_token :: "string \<Rightarrow> string \<Rightarrow> string" where
  "strip_token tok commandString = js_trim (js_replace_first tok commandString)"

section \<open>What a match must and may contain, and where it ends\<close>

text \<open>
  Three facts read off a regular expression: the least number of occurrences of a
  character in any text it matches, the characters that may occur in such a text at all,
  and whether every match ends at the end of the input (the expression ends in \<open>$\<close>).
\<close>

fun rx_min_count :: "char \<Rightarrow> rx \<Rightarrow> nat" where
  "rx_min_count c (Chr d) = (if c = d then 1 else 0)"
| "rx_min_count c (Rng a b) = 0"
| "rx_min_count c (Seq r1 r2) = rx_min_count c r1 + rx_min_count c r2"
| "rx_min_count c (Alt r1 r2) = min (rx_min_count c r1) (rx_min_count c r2)"
| "rx_min_count c (Opt r) = 0"
| "rx_min_count c (Plus r) = rx_min_count c r"
| "rx_min_count c Eol = 0"

fun rx_may :: "rx \<Rightarrow> char \<Rightarrow> bool" where
  "rx_may (Chr d) x = (x = d)"
| "rx_may (Rng a b) x = ((of_char a :: nat) \<le> of_char x \<and> (of_char x :: nat) \<le> of_char b)"
| "rx_may (Seq r1 r2) x = (rx_may r1 x \<or> rx_may r2 x)"
| "rx_may (Alt r1 r2) x = (rx_may r1 x \<or> rx_may r2 x)"
| "rx_may (Opt r) x = rx_may r x"
| "rx_may (Plus r) x = rx_may r x"
| "rx_may Eol x = False"

fun rx_anchored :: "rx \<Rightarrow> bool" where
  "rx_anchored Eol = True"
| "rx_anchored (Seq r1 r2) = rx_anchored r2"
| "rx_anchored (Alt r1 r2) = (rx_anchored r1 \<and> rx_anchored r2)"
| "rx_anchored (Chr c) = False"
| "rx_anchored (Rng a b) = False"
| "rx_anchored (Opt r) = False"
| "rx_anchored (Plus r) = False"

lemmas rx_rest_Plus = rx_rest.simps(6)
declare rx_rest.simps(6) [simp del]

lemma rx_rest_decomp:
  "s' \<in> set (rx_rest r s) \<Longrightarrow>
   \<exists>u. s = u @ s' \<and> rx_min_count c r \<le> count_list u c \<and> (\<forall>x\<in>set u. rx_may r x)"
proof (induction r s arbitrary: s' rule: rx_rest.induct)
  case (1 d s)
  then obtain x where "s = x # s'" "x = d"
    by (cases s) (auto split: if_splits)
  then have "s = [d] @ s'" by simp
  then show ?case by (intro exI[of _ "[d]"]) simp
next
  case (2 a b s)
  then obtain x where x: "s = x # s'" "(of_char a :: nat) \<le> of_char x" "(of_char x :: nat) \<le> of_char b"
    by (cases s) (auto split: if_splits)
  then show ?case by (intro exI[of _ "[x]"]) simp
next
  case (3 r1 r2 s)
  from "3.prems" obtain m where m: "m \<in> set (rx_rest r1 s)" and s': "s' \<in> set (rx_rest r2 m)"
    by auto
  from "3.IH"(1)[OF m] obtain u where u: "s = u @ m" "rx_min_count c r1 \<le> count_list u c"
    "\<forall>x\<in>set u. rx_may r1 x"
    by blast
  from "3.IH"(2)[OF m s'] obtain v where v: "m = v @ s'" "rx_min_count c r2 \<le> count_list v c"
    "\<forall>x\<in>set v. rx_may r2 x"
    by blast
  from u v have "s = (u @ v) @ s'" "rx_min_count c (Seq r1 r2) \<le> count_list (u @ v) c"
    "\<forall>x\<in>set (u @ v). rx_may (Seq r1 r2) x"
    by simp_all blast
  then show ?case by blast
next
  case (4 r1 r2 s)
  from "4.prems" consider "s' \<in> set (rx_rest r1 s)" | "s' \<in> set (rx_rest r2 s)" by auto
  then show ?case
  proof cases
    case 1
    from "4.IH"(1)[OF 1] obtain u where "s = u @ s'" "rx_min_count c r1 \<le> count_list u c"
      "\<forall>x\<in>set u. rx_may r1 x" by blast
    then have "s = u @ s' \<and> rx_min_count c (Alt r1 r2) \<le> count_list u c \<and>
      (\<forall>x\<in>set u. rx_may (Alt r1 r2) x)" by simp
    then show ?thesis ..
  next
    case 2
    from "4.IH"(2)[OF 2] obtain u where "s = u @ s'" "rx_min_count c r2 \<le> count_list u c"
      "\<forall>x\<in>set u. rx_may r2 x" by blast
    then have "s = u @ s' \<and> rx_min_count c (Alt r1 r2) \<le> count_list u c \<and>
      (\<forall>x\<in>set u. rx_may (Alt r1 r2) x)" by simp
    then show ?thesis ..
  qed
next
  case (5 r s)
  from "5.prems" consider "s' \<in> set (rx_rest r s)" | "s' = s" by auto
  then show ?case
  proof cases
    case 1
    from "5.IH"[OF 1] obtain u where "s = u @ s'" "\<forall>x\<in>set u. rx_may r x" by blast
    then have "s = u @ s' \<and> rx_min_count c (Opt r) \<le> count_list u c \<and>
      (\<forall>x\<in>set u. rx_may (Opt r) x)" by simp
    then show ?thesis ..
  next
    case 2
    then show ?thesis by (intro exI[of _ "[]"]) simp
  qed
next
  case (6 r s)
  from "6.prems" have "s' \<in> set (concat (map
      (\<lambda>m. if length m < length s then rx_rest (Plus r) m @ [m] else [m]) (rx_rest r s)))"
    by (subst (asm) rx_rest_Plus) assumption
  then obtain m where m: "m \<in> set (rx_rest r s)"
    and s': "s' \<in> set (if length m < length s then rx_rest (Plus r) m @ [m] else [m])"
    unfolding set_concat set_map by blast
  from "6.IH"(1)[OF m] obtain u where u: "s = u @ m" "rx_min_count c r \<le> count_list u c"
    "\<forall>x\<in>set u. rx_may r x"
    by blast
  show ?case
  proof (cases "s' = m")
    case True
    with u have "s = u @ s' \<and> rx_min_count c (Plus r) \<le> count_list u c \<and>
      (\<forall>x\<in>set u. rx_may (Plus r) x)" by simp
    then show ?thesis ..
  next
    case False
    with s' have lt: "length m < length s" and in': "s' \<in> set (rx_rest (Plus r) m)"
      by (auto split: if_splits)
    from "6.IH"(2)[OF m lt in'] obtain v where v: "m = v @ s'" "\<forall>x\<in>set v. rx_may (Plus r) x"
      by blast
    with u have "s = (u @ v) @ s'" "rx_min_count c (Plus r) \<le> count_list (u @ v) c"
      "\<forall>x\<in>set (u @ v). rx_may (Plus r) x"
      by simp_all blast
    then show ?thesis by blast
  qed
next
  case (7 s)
  then have "s = [] @ s'" by (simp split: if_splits)
  then show ?case by (intro exI[of _ "[]"]) simp
qed

lemma js_match_decomp:
  "js_match r s = Some t \<Longrightarrow> \<exists>p q. s = p @ t @ q \<and> q \<in> set (rx_rest r (t @ q))"
proof (induction r s rule: js_match.induct)
  case (1 r s)
  show ?case
  proof (cases "rx_rest r s")
    case Nil
    with "1.prems" obtain x xs where s: "s = x # xs" and m: "js_match r xs = Some t"
      by (auto simp: js_match.simps[of r s] split: list.splits)
    from "1.IH"[OF Nil s m] obtain p q where "xs = p @ t @ q" "q \<in> set (rx_rest r (t @ q))" by blast
    then show ?thesis using s by (intro exI[of _ "x # p"] exI[of _ q]) simp
  next
    case (Cons s' rest)
    with "1.prems" have t: "t = take (length s - length s') s"
      by (simp add: js_match.simps[of r s])
    from Cons have "s' \<in> set (rx_rest r s)" by simp
    from rx_rest_decomp[OF this] obtain u where u: "s = u @ s'" by blast
    with t have "t = u" by simp
    with u Cons show ?thesis by (intro exI[of _ "[]"] exI[of _ s']) simp
  qed
qed

lemma js_replace_first_length:
  "s = p @ t @ q \<Longrightarrow> length (js_replace_first t s) + length t = length s"
proof (induction s arbitrary: p)
  case Nil
  then show ?case by simp
next
  case (Cons x xs)
  show ?case
  proof (cases "prefix t (x # xs)")
    case True
    then obtain zs where zs: "x # xs = t @ zs" by (auto simp: prefix_def)
    then have "length (x # xs) = length t + length zs" by (metis length_append)
    with True show ?thesis by simp
  next
    case False
    with Cons.prems obtain p' where "p = x # p'" by (cases p) auto
    with Cons.prems have "xs = p' @ t @ q" by simp
    from Cons.IH[OF this] False show ?thesis by simp
  qed
qed

lemma js_trim_length: "length (js_trim s) \<le> length s"
proof -
  have "length (dropWhile is_ws (rev (dropWhile is_ws s))) \<le> length (rev (dropWhile is_ws s))"
    by (rule length_dropWhile_le)
  also have "\<dots> \<le> length s" by (simp add: length_dropWhile_le)
  finally show ?thesis by (simp add: js_trim_def)
qed

lemma testAnyMatch_dots: "rx_min_count CHR ''.'' testAnyMatch = 3"
  by (simp add: testAnyMatch_def dotted_quad_def hyphen_quad_def rep3_def octet_def
      octet_or_range_def cidr_suffix_def prefix_len_def)

lemma strip_token_shorter:
  assumes "js_match testAnyMatch s = Some tok"
  shows "tok \<noteq> [] \<and> length (strip_token tok s) < length s"
proof -
  from js_match_decomp[OF assms] obtain p q where s: "s = p @ tok @ q"
    and q: "q \<in> set (rx_rest testAnyMatch (tok @ q))" by blast
  from rx_rest_decomp[OF q, of "CHR ''.''"] obtain u where
    u: "tok @ q = u @ q" "3 \<le> count_list u CHR ''.''"
    by (auto simp: testAnyMatch_dots)
  then have "u = tok" by simp
  with u have ne: "tok \<noteq> []" by auto
  from js_replace_first_length[OF s] ne have "length (js_replace_first tok s) < length s"
    by (cases tok) auto
  with js_trim_length[of "js_replace_first tok s"] ne show ?thesis
    by (simp add: strip_token_def)
qed

text \<open>
  Lines 86-166, the loop: \<open>allAddresses[0]\<close> is the text matched by \<open>testAnyMatch\<close>; when
  there is no match the list is returned.
\<close>

function parse_loop :: "string \<Rightarrow> string list \<Rightarrow> js_error + string list" where
  "parse_loop commandString addressList =
     (case js_match testAnyMatch commandString of
        None \<Rightarrow> Inr addressList
      | Some tok \<Rightarrow>
          (case expand_token tok of
             Inl e \<Rightarrow> Inl e
           | Inr new \<Rightarrow> parse_loop (strip_token tok commandString) (addressList @ new)))"
  by pat_completeness auto
termination
  by (relation "measure (\<lambda>(commandString, addressList). length commandString)")
     (auto dest: strip_token_shorter)

declare parse_loop.simps [simp del]

definition ListIPAddresses :: "string \<Rightarrow> js_error + string list" where
  "ListIPAddresses commandString = parse_loop commandString []"

section \<open>createPortScanResults (lines 175-224)\<close>

text \<open>One object of the dataset: every field is a string, as the CSV reader delivers it.\<close>

record host =
  IP :: string
  PortsOpen :: string
  PortsClosed :: string
  PortsFiltered :: string
  Latency :: string

definition CRLF :: string where
  "CRLF = [CHR 0x0D, CHR 0x0A]"

text \<open>The comparator of line 201, \<open>(a, b) => Number(a) - Number(b)\<close>.\<close>

definition port_cmp :: "string \<Rightarrow> string \<Rightarrow> number" where
  "port_cmp a b = num_add (Number a) (map_option uminus (Number b))"

text \<open>
  \<open>xs.sort(cmp)\<close>: the sort of an array is stable, and a comparator result that is NaN
  counts as 0. For a consistent comparator every stable sort returns the same array; it is
  computed here by insertion, an element going before the first one it is not greater than.
\<close>

fun js_insert :: "('a \<Rightarrow> 'a \<Rightarrow> number) \<Rightarrow> 'a \<Rightarrow> 'a list \<Rightarrow> 'a list" where
  "js_insert cmp x [] = [x]"
| "js_insert cmp x (y # ys) =
     (if (case cmp x y of None \<Rightarrow> False | Some d \<Rightarrow> 0 < d) then y # js_insert cmp x ys
      else x # y # ys)"

definition js_sort :: "('a \<Rightarrow> 'a \<Rightarrow> number) \<Rightarrow> 'a list \<Rightarrow> 'a list" where
  "js_sort cmp xs = foldr (js_insert cmp) xs []"

text \<open>Lines 206-214: the text added for one port when the scan is not a ping scan.\<close>

definition port_line :: "host \<Rightarrow> string \<Rightarrow> string" where
  "port_line machine word =
     word @ ''/tcp  '' @
     (if js_includes (PortsFiltered machine) word then ''filtered ''
      else if js_includes (PortsOpen machine) word then ''open ''
      else if js_includes (PortsClosed machine) word then ''closed ''
      else []) @ CRLF"

text \<open>Lines 202-217: the loop over \<open>sortedports\<close>, appending to \<open>result\<close>.\<close>

fun port_loop :: "bool \<Rightarrow> host \<Rightarrow> string list \<Rightarrow> string \<Rightarrow> string" where
  "port_loop pingScan machine [] result = result"
| "port_loop pingScan machine (word # sortedports) result =
     port_loop pingScan machine sortedports
       (if word \<noteq> [] then (if \<not> pingScan then result @ port_line machine word else result)
        else result)"

definition sortedports_of :: "host \<Rightarrow> string list" where
  "sortedports_of machine =
     js_sort port_cmp
       (js_split CHR '' '' (PortsFiltered machine @ '' '' @ PortsClosed machine @ '' '' @
                            PortsOpen machine))"

text \<open>Lines 188-221: the loop over the dataset; the state is \<open>result\<close> and \<open>scannedaddresses\<close>.\<close>

fun machine_loop :: "bool \<Rightarrow> string list \<Rightarrow> host list \<Rightarrow> string \<times> int \<Rightarrow> string \<times> int" where
  "machine_loop pingScan targetlist [] (result, scannedaddresses) = (result, scannedaddresses)"
| "machine_loop pingScan targetlist (machine # data) (result, scannedaddresses) =
     (if IP machine \<in> set targetlist \<and>
         (PortsClosed machine \<noteq> [] \<or> PortsFiltered machine \<noteq> [] \<or> PortsOpen machine \<noteq> [])
      then
        (let r1 = result @ ''Nmap scan report for '' @ IP machine @ CRLF;
             r2 = r1 @ ''Host it up ('' @ Latency machine @ ''s latency).'' @ CRLF;
             r3 = (if \<not> pingScan then r2 @ ''PORT         STATE    SERVICE'' @ CRLF else r2);
             r4 = port_loop pingScan machine (sortedports_of machine) r3;
             r5 = (if \<not> pingScan then r4 @ CRLF else r4)
         in machine_loop pingScan targetlist data (r5, scannedaddresses + 1))
      else machine_loop pingScan targetlist data (result, scannedaddresses))"

definition createPortScanResults :: "host list \<Rightarrow> string \<Rightarrow> js_error + string" where
  "createPortScanResults data commandString =
     (let result = ''Starting Nmap 7.95 ( https://nmap.org )'' @ CRLF;
          pingScan = (js_includes commandString '' -sn '' \<or> js_includes commandString '' -PE '')
      in case ListIPAddresses commandString of
           Inl e \<Rightarrow> Inl e
         | Inr targetlist \<Rightarrow>
            (let totaladdresses = int (length targetlist);
                 (result', scannedaddresses) = machine_loop pingScan targetlist data (result, 0)
             in Inr (result' @ ''Nmap done: '' @ num_str totaladdresses @ '' IP addresses ('' @
                     num_str scannedaddresses @ '' host up) scanned in 26.18 seconds'' @ CRLF)))"

section \<open>Notions the statements are written with\<close>

subsection \<open>The report\<close>

text \<open>
  The condition of line 192, the text that lines 196-218 append for one host, the
  ping-scan flag of line 178 and the trailer of line 222, as functions of their own.
\<close>

definition host_included :: "string list \<Rightarrow> host \<Rightarrow> bool" where
  "host_included targetlist machine =
     (IP machine \<in> set targetlist \<and>
      (PortsClosed machine \<noteq> [] \<or> PortsFiltered machine \<noteq> [] \<or> PortsOpen machine \<noteq> []))"

definition port_lines :: "bool \<Rightarrow> host \<Rightarrow> string" where
  "port_lines pingScan machine =
     concat (map (\<lambda>word. if word \<noteq> [] \<and> \<not> pingScan then port_line machine word else [])
                 (sortedports_of machine))"

definition host_block :: "bool \<Rightarrow> host \<Rightarrow> string" where
  "host_block pingScan machine =
     ''Nmap scan report for '' @ IP machine @ CRLF @
     ''Host it up ('' @ Latency machine @ ''s latency).'' @ CRLF @
     (if pingScan then [] else ''PORT         STATE    SERVICE'' @ CRLF) @
     port_lines pingScan machine @
     (if pingScan then [] else CRLF)"

definition pingScan_of :: "string \<Rightarrow> bool" where
  "pingScan_of commandString =
     (js_includes commandString '' -sn '' \<or> js_includes commandString '' -PE '')"

definition trailer :: "nat \<Rightarrow> nat \<Rightarrow> string" where
  "trailer requested up =
     ''Nmap done: '' @ dec requested @ '' IP addresses ('' @ dec up @
     '' host up) scanned in 26.18 seconds'' @ CRLF"

subsection \<open>Addresses\<close>

text \<open>
  The dotted-quad text of four octets, its value as an unsigned 32-bit integer, the
  dotted-quad text of an integer (octet \<open>k\<close> of \<open>n\<close> is \<open>n div 2^(8k) mod 256\<close>), and the
  network address of a value for a prefix length: the multiple of \<open>2^(32-P)\<close> at or
  below it.
\<close>

definition dotted :: "nat \<Rightarrow> nat \<Rightarrow> nat \<Rightarrow> nat \<Rightarrow> string" where
  "dotted a b c d = dec a @ ''.'' @ dec b @ ''.'' @ dec c @ ''.'' @ dec d"

definition ip_value :: "nat \<Rightarrow> nat \<Rightarrow> nat \<Rightarrow> nat \<Rightarrow> int" where
  "ip_value a b c d = int (((a * 256 + b) * 256 + c) * 256 + d)"

definition ip_text :: "int \<Rightarrow> string" where
  "ip_text n = dotted (nat (n div 2 ^ 24 mod 256)) (nat (n div 2 ^ 16 mod 256))
                      (nat (n div 2 ^ 8 mod 256)) (nat (n mod 256))"

definition network :: "int \<Rightarrow> nat \<Rightarrow> int" where
  "network v P = v - v mod 2 ^ (32 - P)"

subsection \<open>Fields of the per-octet notation\<close>







subsection \<open>Port categories\<close>

text \<open>
  A port category as the dataset gives it, a space-separated list of port numbers in
  decimal; the words it splits into (an empty category is one empty word); and the
  numeric value the comparator of the sort compares a word by.
\<close>

fun port_list_text :: "nat list \<Rightarrow> string" where
  "port_list_text [] = []"
| "port_list_text [p] = dec p"
| "port_list_text (p # q # ps) = dec p @ '' '' @ port_list_text (q # ps)"

definition port_words :: "nat list \<Rightarrow> string list" where
  "port_words ps = (if ps = [] then [[]] else map dec ps)"

definition port_key :: "string \<Rightarrow> int" where
  "port_key w = nan0 (Number w)"

section \<open>The parser raises no exception\<close>

text \<open>
  The tests that select a branch of the loop body guarantee the separators that the branch
  splits at, so no field the branch reads is \<open>undefined\<close>.
\<close>

lemma js_split_length: "length (js_split c s) = Suc (count_list s c)"
  by (induction s) (auto split: list.splits)

lemma js_index_Some: "i < length xs \<Longrightarrow> js_index xs i = Some (xs ! i)"
  by (induction xs i rule: js_index.induct) auto

lemma list_four:
  assumes "3 < length xs"
  shows "\<exists>a b c d rest. xs = a # b # c # d # rest"
proof -
  from assms obtain a x1 where 1: "xs = a # x1" by (cases xs) auto
  with assms obtain b x2 where 2: "x1 = b # x2" by (cases x1) auto
  with 1 assms obtain c x3 where 3: "x2 = c # x3" by (cases x2) auto
  with 1 2 assms obtain d x4 where 4: "x3 = d # x4" by (cases x3) auto
  with 1 2 3 show ?thesis by blast
qed

lemma js_test_count:
  assumes "js_test r s"
  shows "rx_min_count c r \<le> count_list s c"
proof -
  from assms obtain t where "js_match r s = Some t" by (auto simp: js_test_def)
  from js_match_decomp[OF this] obtain p q where s: "s = p @ t @ q"
    and q: "q \<in> set (rx_rest r (t @ q))" by blast
  from rx_rest_decomp[OF q, of c] obtain u where "t @ q = u @ q" "rx_min_count c r \<le> count_list u c"
    by blast
  then have "rx_min_count c r \<le> count_list t c" by simp
  with s show ?thesis by simp
qed

lemma testStartStop_hyphens: "rx_min_count CHR ''-'' testStartStop = 1"
  by (simp add: testStartStop_def dotted_quad_def rep3_def octet_def)

lemma testNmapHyphenOrSingle_dots: "rx_min_count CHR ''.'' testNmapHyphenOrSingle = 3"
  by (simp add: testNmapHyphenOrSingle_def hyphen_quad_def rep3_def octet_def octet_or_range_def)

lemma expand_token_no_error: "\<exists>l. expand_token tok = Inr l"
proof -
  have A: "js_test testStartStop tok \<Longrightarrow>
      \<exists>a b. js_index (js_split CHR ''-'' tok) 0 = Some a \<and> js_index (js_split CHR ''-'' tok) 1 = Some b"
  proof -
    assume "js_test testStartStop tok"
    from js_test_count[OF this, of "CHR ''-''"] have "1 < length (js_split CHR ''-'' tok)"
      by (simp add: testStartStop_hyphens js_split_length)
    then have "js_index (js_split CHR ''-'' tok) 0 = Some (js_split CHR ''-'' tok ! 0)"
      "js_index (js_split CHR ''-'' tok) 1 = Some (js_split CHR ''-'' tok ! 1)"
      by (intro js_index_Some, linarith)+
    then show ?thesis by blast
  qed
  have B: "\<exists>a. js_index (js_split CHR ''/'' tok) 0 = Some a"
    by (simp add: js_index_Some js_split_length)
  have C: "js_test testNmapHyphenOrSingle tok \<Longrightarrow>
      \<exists>a b c d rest. js_split CHR ''.'' tok = a # b # c # d # rest"
  proof -
    assume "js_test testNmapHyphenOrSingle tok"
    from js_test_count[OF this, of "CHR ''.''"] have "3 < length (js_split CHR ''.'' tok)"
      by (simp add: testNmapHyphenOrSingle_dots js_split_length)
    then show ?thesis by (rule list_four)
  qed
  show ?thesis
  proof (cases "js_test testStartStop tok")
    case True
    from A[OF True] obtain a b where "js_index (js_split CHR ''-'' tok) 0 = Some a"
      "js_index (js_split CHR ''-'' tok) 1 = Some b" by blast
    with True show ?thesis by (simp add: expand_token_def)
  next
    case nss: False
    show ?thesis
    proof (cases "js_test testCIDR tok")
      case True
      from B obtain a where "js_index (js_split CHR ''/'' tok) 0 = Some a" by blast
      with nss True show ?thesis
        by (simp add: expand_token_def Let_def split: option.splits)
    next
      case ncidr: False
      show ?thesis
      proof (cases "js_test_at_start testSingleIP tok")
        case True
        with nss ncidr show ?thesis by (simp add: expand_token_def)
      next
        case nsingle: False
        show ?thesis
        proof (cases "js_test testNmapHyphenOrSingle tok")
          case True
          from C[OF True] obtain a b c d rest where
            "js_split CHR ''.'' tok = a # b # c # d # rest" by blast
          with nss ncidr nsingle True show ?thesis by (simp add: expand_token_def)
        next
          case False
          with nss ncidr nsingle show ?thesis by (simp add: expand_token_def)
        qed
      qed
    qed
  qed
qed

lemma parse_loop_no_error: "\<exists>l. parse_loop s acc = Inr l"
proof (induction s acc rule: parse_loop.induct)
  case (1 commandString addressList)
  show ?case
  proof (cases "js_match testAnyMatch commandString")
    case None
    then show ?thesis by (simp add: parse_loop.simps[of commandString])
  next
    case (Some tok)
    from expand_token_no_error obtain new where new: "expand_token tok = Inr new" by blast
    from "1.IH"[OF Some new] Some new show ?thesis
      by (simp add: parse_loop.simps[of commandString])
  qed
qed

lemma ListIPAddresses_no_error: "\<exists>l. ListIPAddresses s = Inr l"
  by (simp add: ListIPAddresses_def parse_loop_no_error)

section \<open>The report in closed form\<close>

text \<open>
  Both loops of \<open>createPortScanResults\<close> append to \<open>result\<close>: the report is the start
  line, the blocks of the included hosts in dataset order, and the trailer.
\<close>

lemma port_loop_closed:
  "port_loop pingScan machine ws result =
     result @ concat (map (\<lambda>word. if word \<noteq> [] \<and> \<not> pingScan then port_line machine word else []) ws)"
  by (induction ws arbitrary: result) auto

lemma machine_loop_skip:
  assumes "\<not> host_included targetlist machine"
  shows "machine_loop pingScan targetlist (machine # data) (result, n) =
         machine_loop pingScan targetlist data (result, n)"
proof -
  from assms have c: "\<not> (IP machine \<in> set targetlist \<and>
      (PortsClosed machine \<noteq> [] \<or> PortsFiltered machine \<noteq> [] \<or> PortsOpen machine \<noteq> []))"
    unfolding host_included_def .
  show ?thesis
    by (subst machine_loop.simps(2)) (simp only: c if_False simp_thms)
qed

lemma machine_loop_take:
  assumes "host_included targetlist machine"
  shows "machine_loop pingScan targetlist (machine # data) (result, n) =
         machine_loop pingScan targetlist data (result @ host_block pingScan machine, n + 1)"
proof -
  from assms have c: "IP machine \<in> set targetlist \<and>
      (PortsClosed machine \<noteq> [] \<or> PortsFiltered machine \<noteq> [] \<or> PortsOpen machine \<noteq> [])"
    unfolding host_included_def .
  have "machine_loop pingScan targetlist (machine # data) (result, n) =
        machine_loop pingScan targetlist data
          ((if \<not> pingScan
            then port_loop pingScan machine (sortedports_of machine)
                   (if \<not> pingScan
                    then (result @ ''Nmap scan report for '' @ IP machine @ CRLF) @
                         ''Host it up ('' @ Latency machine @ ''s latency).'' @ CRLF @
                         ''PORT         STATE    SERVICE'' @ CRLF
                    else (result @ ''Nmap scan report for '' @ IP machine @ CRLF) @
                         ''Host it up ('' @ Latency machine @ ''s latency).'' @ CRLF) @ CRLF
            else port_loop pingScan machine (sortedports_of machine)
                   (if \<not> pingScan
                    then (result @ ''Nmap scan report for '' @ IP machine @ CRLF) @
                         ''Host it up ('' @ Latency machine @ ''s latency).'' @ CRLF @
                         ''PORT         STATE    SERVICE'' @ CRLF
                    else (result @ ''Nmap scan report for '' @ IP machine @ CRLF) @
                         ''Host it up ('' @ Latency machine @ ''s latency).'' @ CRLF)),
           n + 1)"
    by (subst machine_loop.simps(2)) (simp only: c if_True Let_def append_assoc simp_thms)
  also have "\<dots> = machine_loop pingScan targetlist data (result @ host_block pingScan machine, n + 1)"
    by (cases pingScan) (simp_all add: host_block_def port_lines_def port_loop_closed del: machine_loop.simps)
  finally show ?thesis .
qed

lemma machine_loop_closed:
  "machine_loop pingScan targetlist data (result, n) =
     (result @ concat (map (host_block pingScan) (filter (host_included targetlist) data)),
      n + int (length (filter (host_included targetlist) data)))"
proof (induction data arbitrary: result n)
  case Nil
  then show ?case by simp
next
  case (Cons machine data)
  show ?case
  proof (cases "host_included targetlist machine")
    case True
    then show ?thesis
      by (simp add: machine_loop_take Cons.IH del: machine_loop.simps)
  next
    case False
    then show ?thesis
      by (simp add: machine_loop_skip Cons.IH del: machine_loop.simps)
  qed
qed

lemma num_str_int: "num_str (int n) = dec n"
  by (simp add: num_str_def)

lemma createPortScanResults_closed:
  assumes "ListIPAddresses commandString = Inr targetlist"
  shows "createPortScanResults data commandString =
     Inr (''Starting Nmap 7.95 ( https://nmap.org )'' @ CRLF @
          concat (map (host_block (pingScan_of commandString)) (filter (host_included targetlist) data)) @
          trailer (length targetlist) (length (filter (host_included targetlist) data)))"
  using assms
  by (simp add: createPortScanResults_def machine_loop_closed num_str_int trailer_def pingScan_of_def Let_def)

section \<open>Decimal numerals\<close>

text \<open>
  The decimal text of a natural number consists of digits only, and both \<open>parseInt\<close> and
  \<open>Number\<close> read it back.
\<close>

lemma of_char_digit_char: "d < 10 \<Longrightarrow> (of_char (digit_char d) :: nat) = 48 + d"
  by (simp add: digit_char_def)

lemma is_digit_digit_char: "d < 10 \<Longrightarrow> is_digit (digit_char d)"
  by (simp add: is_digit_def of_char_digit_char)

lemma digit_val_digit_char: "d < 10 \<Longrightarrow> digit_val (digit_char d) = d"
  by (simp add: digit_val_def of_char_digit_char)

lemma is_digit_not_ws: "is_digit c \<Longrightarrow> \<not> is_ws c"
  by (auto simp: is_digit_def is_ws_def)

lemma is_digit_not_sep:
  "is_digit c \<Longrightarrow> c \<noteq> CHR ''-'' \<and> c \<noteq> CHR ''+'' \<and> c \<noteq> CHR ''.'' \<and> c \<noteq> CHR ''/'' \<and> c \<noteq> CHR '' ''"
  by (auto simp: is_digit_def)

lemma dec_digits: "c \<in> set (dec n) \<Longrightarrow> is_digit c"
proof (induction n arbitrary: c rule: dec.induct)
  case (1 n)
  show ?case
  proof (cases "n < 10")
    case True
    with "1.prems" show ?thesis by (simp add: dec.simps[of n] is_digit_digit_char)
  next
    case False
    with "1.prems" have "c \<in> set (dec (n div 10)) \<or> c = digit_char (n mod 10)"
      by (auto simp: dec.simps[of n])
    with "1.IH"[OF False] show ?thesis by (auto simp: is_digit_digit_char)
  qed
qed

lemma dec_not_Nil: "dec n \<noteq> []"
  by (subst dec.simps) simp

lemma digits_val_snoc: "digits_val (xs @ [c]) = 10 * digits_val xs + digit_val c"
  by (simp add: digits_val_def)

lemma digits_val_dec: "digits_val (dec n) = n"
proof (induction n rule: dec.induct)
  case (1 n)
  show ?case
  proof (cases "n < 10")
    case True
    then show ?thesis by (simp add: dec.simps[of n] digits_val_def digit_val_digit_char)
  next
    case False
    with "1.IH" show ?thesis
      by (simp add: dec.simps[of n] digits_val_snoc digit_val_digit_char)
  qed
qed

lemma dec_no_char: "\<not> is_digit c \<Longrightarrow> c \<notin> set (dec n)"
  using dec_digits by blast

lemma dropWhile_ws_dec: "dropWhile is_ws (dec n) = dec n"
proof (cases "dec n")
  case Nil
  then show ?thesis by simp
next
  case (Cons x xs)
  then have "x \<in> set (dec n)" by simp
  then have "\<not> is_ws x" using dec_digits is_digit_not_ws by blast
  with Cons show ?thesis by simp
qed

lemma takeWhile_digit_dec: "takeWhile is_digit (dec n) = dec n"
  by (simp add: takeWhile_eq_all_conv dec_digits)

lemma js_trim_dec: "js_trim (dec n) = dec n"
proof -
  have "dropWhile is_ws (rev (dec n)) = rev (dec n)"
  proof (cases "rev (dec n)")
    case Nil
    then show ?thesis by simp
  next
    case (Cons x xs)
    then have "x \<in> set (dec n)" by (metis list.set_intros(1) set_rev)
    then have "\<not> is_ws x" using dec_digits is_digit_not_ws by blast
    with Cons show ?thesis by simp
  qed
  then show ?thesis by (simp add: js_trim_def dropWhile_ws_dec)
qed

lemma dec_hd_not_sign: "dec n = x # xs \<Longrightarrow> x \<noteq> CHR ''-'' \<and> x \<noteq> CHR ''+''"
proof -
  assume "dec n = x # xs"
  then have "x \<in> set (dec n)" by simp
  then show ?thesis using dec_digits is_digit_not_sep by blast
qed

lemma dec_sign_False: "(case dec n of [] \<Rightarrow> False | c # _ \<Rightarrow> c = CHR ''-'') = False"
  using dec_hd_not_sign[of n] by (cases "dec n") auto

lemma dec_sign_strip:
  "(case dec n of [] \<Rightarrow> [] | c # cs \<Rightarrow> if c = CHR ''-'' \<or> c = CHR ''+'' then cs else dec n) = dec n"
  using dec_hd_not_sign[of n] dec_not_Nil[of n] by (cases "dec n") auto

lemma parseInt_dec: "parseInt (dec n) = Some (int n)"
  by (simp add: parseInt_def Let_def dropWhile_ws_dec dec_sign_False dec_sign_strip
      takeWhile_digit_dec digits_val_dec dec_not_Nil)

lemma Number_dec: "Number (dec n) = Some (int n)"
proof -
  have "list_all is_digit (dec n)" by (simp add: list_all_iff dec_digits)
  then show ?thesis
    by (simp add: Number_def Let_def js_trim_dec dec_sign_False dec_sign_strip
        digits_val_dec dec_not_Nil)
qed

lemma dec_1: "n < 10 \<Longrightarrow> dec n = [digit_char n]"
  by (subst dec.simps) simp

lemma dec_2: "10 \<le> n \<Longrightarrow> n < 100 \<Longrightarrow> dec n = [digit_char (n div 10), digit_char (n mod 10)]"
  by (subst dec.simps) (simp add: dec_1)

lemma dec_3:
  "100 \<le> n \<Longrightarrow> n < 1000 \<Longrightarrow>
   dec n = [digit_char (n div 100), digit_char (n div 10 mod 10), digit_char (n mod 10)]"
  by (subst dec.simps) (simp add: dec_2 div_mult2_eq[symmetric])

section \<open>Texts the regular expressions accept\<close>

text \<open>
  Membership rules for the matcher, and the fact that the octet expression accepts the
  decimal text of every number up to 255.
\<close>

lemma rx_in_Chr: "rest \<in> set (rx_rest (Chr c) (c # rest))"
  by simp

lemma rx_in_Rng:
  "(of_char a :: nat) \<le> of_char x \<Longrightarrow> (of_char x :: nat) \<le> of_char b \<Longrightarrow>
   rest \<in> set (rx_rest (Rng a b) (x # rest))"
  by simp

lemma rx_in_Seq:
  "m \<in> set (rx_rest r1 s) \<Longrightarrow> s' \<in> set (rx_rest r2 m) \<Longrightarrow> s' \<in> set (rx_rest (Seq r1 r2) s)"
  by auto

lemma rx_in_Alt1: "s' \<in> set (rx_rest r1 s) \<Longrightarrow> s' \<in> set (rx_rest (Alt r1 r2) s)"
  by simp

lemma rx_in_Alt2: "s' \<in> set (rx_rest r2 s) \<Longrightarrow> s' \<in> set (rx_rest (Alt r1 r2) s)"
  by simp

lemma rx_in_Opt1: "s' \<in> set (rx_rest r s) \<Longrightarrow> s' \<in> set (rx_rest (Opt r) s)"
  by simp


lemma rx_in_Plus: "s' \<in> set (rx_rest r s) \<Longrightarrow> s' \<in> set (rx_rest (Plus r) s)"
  by (subst rx_rest_Plus) auto

lemma rx_in_Eol: "[] \<in> set (rx_rest Eol [])"
  by simp

lemma rx_in_digit:
  assumes "lo \<le> d" "d \<le> hi" "hi < 10"
  shows "rest \<in> set (rx_rest (Rng (digit_char lo) (digit_char hi)) (digit_char d # rest))"
  using assms by (intro rx_in_Rng) (simp_all add: of_char_digit_char)

lemma digit_chars:
  "CHR ''0'' = digit_char 0" "CHR ''1'' = digit_char 1" "CHR ''2'' = digit_char 2"
  "CHR ''3'' = digit_char 3" "CHR ''4'' = digit_char 4" "CHR ''5'' = digit_char 5"
  "CHR ''9'' = digit_char 9"
  by code_simp+

lemma octet_accepts:
  assumes "n \<le> 255"
  shows "rest \<in> set (rx_rest octet (dec n @ rest))"
proof -
  consider "n < 10" | "10 \<le> n" "n < 100" | "100 \<le> n" "n < 200" | "200 \<le> n" "n < 250"
    | "250 \<le> n" "n \<le> 255"
    using assms by linarith
  then show ?thesis
  proof cases
    case 1
    then have "rest \<in> set (rx_rest (Rng CHR ''0'' CHR ''9'') (dec n @ rest))"
      unfolding digit_chars by (simp only: dec_1 append_Cons append_Nil) (rule rx_in_digit; simp)
    then show ?thesis
      unfolding octet_def by (intro rx_in_Alt2)
  next
    case 2
    then have d: "1 \<le> n div 10" "n div 10 \<le> 9" "n mod 10 \<le> 9" by auto
    have "rest \<in> set (rx_rest (Seq (Rng CHR ''1'' CHR ''9'') (Rng CHR ''0'' CHR ''9'')) (dec n @ rest))"
      unfolding digit_chars using 2 d
      by (simp only: dec_2 append_Cons append_Nil) (rule rx_in_Seq; rule rx_in_digit; simp)
    then show ?thesis
      unfolding octet_def by (intro rx_in_Alt2 rx_in_Alt1)
  next
    case 3
    then have d: "n div 100 = 1" "n div 10 mod 10 \<le> 9" "n mod 10 \<le> 9" by auto
    have "rest \<in> set (rx_rest (Seq (Chr CHR ''1'') (Seq (Rng CHR ''0'' CHR ''9'') (Rng CHR ''0'' CHR ''9'')))
              (dec n @ rest))"
      unfolding digit_chars using 3 d
      by (simp only: dec_3 append_Cons append_Nil)
         (rule rx_in_Seq, rule rx_in_Chr, rule rx_in_Seq; rule rx_in_digit; simp)
    then show ?thesis
      unfolding octet_def by (intro rx_in_Alt2 rx_in_Alt1)
  next
    case 4
    then have "20 \<le> n div 10" "n div 10 < 25" by auto
    then have "n div 10 mod 10 \<le> 4" by (simp add: le_mod_geq)
    with 4 have d: "n div 100 = 2" "n div 10 mod 10 \<le> 4" "n mod 10 \<le> 9" by auto
    have "rest \<in> set (rx_rest (Seq (Chr CHR ''2'') (Seq (Rng CHR ''0'' CHR ''4'') (Rng CHR ''0'' CHR ''9'')))
              (dec n @ rest))"
      unfolding digit_chars using 4 d
      by (simp only: dec_3 append_Cons append_Nil)
         (rule rx_in_Seq, rule rx_in_Chr, rule rx_in_Seq; rule rx_in_digit; simp)
    then show ?thesis
      unfolding octet_def by (intro rx_in_Alt2 rx_in_Alt1)
  next
    case 5
    then have b: "n div 10 = 25" by auto
    from 5 have "n mod 10 = n - 250" by (simp add: le_mod_geq)
    with 5 b have d: "n div 100 = 2" "n div 10 mod 10 = 5" "n mod 10 \<le> 5" by auto
    have "rest \<in> set (rx_rest (Seq (Chr CHR ''2'') (Seq (Chr CHR ''5'') (Rng CHR ''0'' CHR ''5'')))
              (dec n @ rest))"
      unfolding digit_chars using 5 d
      by (simp only: dec_3 append_Cons append_Nil)
         (rule rx_in_Seq, rule rx_in_Chr, rule rx_in_Seq, rule rx_in_Chr, rule rx_in_digit; simp)
    then show ?thesis
      unfolding octet_def by (intro rx_in_Alt1)
  qed
qed

section \<open>Dotted quads and their values\<close>

text \<open>
  \<open>int2ip\<close> computes the dotted-quad text of every integer, negative ones included, and
  \<open>ip2int\<close> the value of a dotted quad.
\<close>

lemma shift_count: "0 \<le> n \<Longrightarrow> n < 32 \<Longrightarrow> nat (ToUint32 n mod 32) = nat n"
  by (simp add: ToUint32_def take_bit_int_eq_self)

lemma js_ushr_24: "js_ushr ip 24 = take_bit 8 (drop_bit 24 ip)"
  unfolding js_ushr_def ToUint32_def
  by (subst shift_count[unfolded ToUint32_def]) (auto simp: bit_eq_iff bit_simps)

lemma js_and_shr_255:
  "k \<le> 16 \<Longrightarrow> js_and (js_shr ip (int k)) 255 = take_bit 8 (drop_bit k ip)"
proof -
  assume k: "k \<le> 16"
  have m: "(255 :: int) = mask 8" by (simp add: mask_eq_exp_minus_1)
  from k have c: "nat (ToUint32 (int k) mod 32) = k"
    using shift_count[of "int k"] by simp
  show ?thesis
    unfolding js_and_def js_shr_def c ToInt32_def m using k
    by (auto simp: bit_eq_iff bit_simps min_def)
qed

lemma js_and_255: "js_and ip 255 = take_bit 8 ip"
proof -
  have m: "(255 :: int) = mask 8" by (simp add: mask_eq_exp_minus_1)
  show ?thesis
    unfolding js_and_def ToInt32_def m
    by (auto simp: bit_eq_iff bit_simps min_def)
qed

lemma num_str_take_bit: "num_str (take_bit 8 (drop_bit k ip)) = dec (nat (ip div 2 ^ k mod 256))"
  by (simp add: num_str_def take_bit_eq_mod drop_bit_eq_div)

lemma int2ip_eq: "int2ip ip = ip_text ip"
proof -
  have a: "js_and (js_shr ip 16) 255 = take_bit 8 (drop_bit 16 ip)"
    using js_and_shr_255[of 16 ip] by simp
  have b: "js_and (js_shr ip 8) 255 = take_bit 8 (drop_bit 8 ip)"
    using js_and_shr_255[of 8 ip] by simp
  have c: "js_and ip 255 = take_bit 8 (drop_bit 0 ip)"
    by (simp add: js_and_255)
  show ?thesis
    unfolding int2ip_def js_ushr_24 a b c num_str_take_bit ip_text_def dotted_def
    by simp
qed

lemma js_split_no_sep: "c \<notin> set u \<Longrightarrow> js_split c u = [u]"
  by (induction u) auto

lemma js_split_append: "c \<notin> set u \<Longrightarrow> js_split c (u @ c # v) = u # js_split c v"
  by (induction u) auto

lemma dot_not_in_dec: "CHR ''.'' \<notin> set (dec n)"
  by (rule dec_no_char) (simp add: is_digit_def)

lemma hyphen_not_in_dec: "CHR ''-'' \<notin> set (dec n)"
  by (rule dec_no_char) (simp add: is_digit_def)

lemma slash_not_in_dec: "CHR ''/'' \<notin> set (dec n)"
  by (rule dec_no_char) (simp add: is_digit_def)

lemma space_not_in_dec: "CHR '' '' \<notin> set (dec n)"
  by (rule dec_no_char) (simp add: is_digit_def)

lemma js_split_dotted: "js_split CHR ''.'' (dotted a b c d) = [dec a, dec b, dec c, dec d]"
  by (simp add: dotted_def js_split_append js_split_no_sep dot_not_in_dec)

lemma set_dotted:
  "set (dotted a b c d) = set (dec a) \<union> set (dec b) \<union> set (dec c) \<union> set (dec d) \<union> {CHR ''.''}"
  by (auto simp: dotted_def)

lemma hyphen_not_in_dotted: "CHR ''-'' \<notin> set (dotted a b c d)"
  by (simp add: set_dotted hyphen_not_in_dec)

lemma slash_not_in_dotted: "CHR ''/'' \<notin> set (dotted a b c d)"
  by (simp add: set_dotted slash_not_in_dec)

lemma js_shl_8_small:
  assumes "0 \<le> x" "x < 2 ^ 23"
  shows "js_shl x 8 = x * 256"
proof -
  from assms have a: "ToInt32 x = x"
    by (simp add: ToInt32_def signed_take_bit_int_eq_self)
  have c: "nat (ToUint32 8 mod 32) = 8" using shift_count[of 8] by simp
  from assms have "ToInt32 (x * 256) = x * 256"
    by (simp add: ToInt32_def signed_take_bit_int_eq_self)
  then show ?thesis
    by (simp add: js_shl_def a c push_bit_eq_mult)
qed

lemma js_ushr_0_shl:
  assumes "0 \<le> x" "x < 2 ^ 24" "0 \<le> d" "d < 256"
  shows "js_ushr (js_shl x 8 + d) 0 = x * 256 + d"
proof -
  from assms have a: "ToInt32 x = x"
    by (simp add: ToInt32_def signed_take_bit_int_eq_self)
  have c: "nat (ToUint32 8 mod 32) = 8" using shift_count[of 8] by simp
  have s: "js_shl x 8 = signed_take_bit 31 (x * 256)"
    unfolding js_shl_def c a by (simp add: push_bit_eq_mult ToInt32_def)
  have z: "nat (ToUint32 0 mod 32) = 0" by (simp add: ToUint32_def)
  have "js_ushr (js_shl x 8 + d) 0 = take_bit 32 (signed_take_bit 31 (x * 256) + d)"
    by (simp add: js_ushr_def z s ToUint32_def)
  also have "\<dots> = take_bit 32 (take_bit 32 (signed_take_bit 31 (x * 256)) + take_bit 32 d)"
    by (simp only: take_bit_add)
  also have "\<dots> = take_bit 32 (take_bit 32 (x * 256) + take_bit 32 d)"
    by (simp only: take_bit_signed_take_bit)
  also have "\<dots> = take_bit 32 (x * 256 + d)"
    by (simp only: take_bit_add)
  also have "\<dots> = x * 256 + d"
    using assms by (intro take_bit_int_eq_self) auto
  finally show ?thesis .
qed

lemma ip2int_dotted:
  assumes "a \<le> 255" "b \<le> 255" "c \<le> 255" "d \<le> 255"
  shows "ip2int (dotted a b c d) = ip_value a b c d"
proof -
  have z: "js_shl 0 8 + int a = int a" using js_shl_8_small[of 0] by simp
  from assms have s1: "js_shl (int a) 8 + int b = int (a * 256 + b)"
    by (subst js_shl_8_small) auto
  from assms have s2: "js_shl (int (a * 256 + b)) 8 + int c = int ((a * 256 + b) * 256 + c)"
    by (subst js_shl_8_small) auto
  from assms have s3: "js_ushr (js_shl (int ((a * 256 + b) * 256 + c)) 8 + int d) 0 =
      int ((a * 256 + b) * 256 + c) * 256 + int d"
    by (intro js_ushr_0_shl) auto
  have "ip2int (dotted a b c d) =
      js_ushr (js_shl (js_shl (js_shl (js_shl 0 8 + int a) 8 + int b) 8 + int c) 8 + int d) 0"
    unfolding ip2int_def js_split_dotted
    by (simp add: parseInt_dec num_add_def nan0_def)
  also have "\<dots> = int ((a * 256 + b) * 256 + c) * 256 + int d"
    by (simp only: z s1 s2 s3)
  also have "\<dots> = ip_value a b c d"
    by (simp add: ip_value_def)
  finally show ?thesis .
qed

lemma ip_value_bounds:
  assumes "a \<le> 255" "b \<le> 255" "c \<le> 255" "d \<le> 255"
  shows "0 \<le> ip_value a b c d" "ip_value a b c d < 2 ^ 32"
  using assms by (auto simp: ip_value_def)

lemma nat_octet: "nat (int v div 2 ^ k mod 256) = v div 2 ^ k mod 256"
proof -
  have "int v div 2 ^ k mod 256 = int (v div 2 ^ k mod 256)"
    by (simp add: zdiv_int zmod_int)
  then show ?thesis by simp
qed

lemma ip_text_ip_value:
  assumes "a \<le> 255" "b \<le> 255" "c \<le> 255" "d \<le> 255"
  shows "ip_text (ip_value a b c d) = dotted a b c d"
proof -
  let ?v = "((a * 256 + b) * 256 + c) * 256 + d"
  have step: "(x * 256 + y) div 256 = x \<and> (x * 256 + y) mod 256 = y" if "y \<le> 255" for x y :: nat
    using that by simp
  have d1: "?v div 2 ^ 8 = (a * 256 + b) * 256 + c"
    using step[OF assms(4), of "(a * 256 + b) * 256 + c"] by simp
  have "?v div 2 ^ 16 = ?v div 2 ^ 8 div 256"
    by (simp add: div_mult2_eq[symmetric])
  with d1 have d2: "?v div 2 ^ 16 = a * 256 + b"
    using step[OF assms(3), of "a * 256 + b"] by simp
  have "?v div 2 ^ 24 = ?v div 2 ^ 16 div 256"
    by (simp add: div_mult2_eq[symmetric])
  with d2 have d3: "?v div 2 ^ 24 = a"
    using step[OF assms(2), of a] by simp
  have m0: "?v mod 256 = d" using step[OF assms(4), of "(a * 256 + b) * 256 + c"] by simp
  have m1: "?v div 2 ^ 8 mod 256 = c"
    unfolding d1 using step[OF assms(3), of "a * 256 + b"] by simp
  have m2: "?v div 2 ^ 16 mod 256 = b"
    unfolding d2 using step[OF assms(2), of a] by simp
  have m3: "?v div 2 ^ 24 mod 256 = a"
    unfolding d3 using assms(1) by simp
  have "nat (int ?v mod 256) = ?v mod 256"
    using nat_octet[of ?v 0] by simp
  then show ?thesis
    unfolding ip_text_def ip_value_def nat_octet m1 m2 m3 m0 by simp
qed

section \<open>A command that is one token\<close>

text \<open>
  Every regular expression of the parser ends in \<open>$\<close>, so a match is a suffix of the
  text. When the whole command matches, the loop runs once: the command is emptied and
  the addresses of the token are returned.
\<close>

lemma rx_anchored_rest: "rx_anchored r \<Longrightarrow> s' \<in> set (rx_rest r s) \<Longrightarrow> s' = []"
proof (induction r arbitrary: s s')
  case (Seq r1 r2)
  from Seq.prems(2) obtain m where "s' \<in> set (rx_rest r2 m)" by auto
  with Seq.IH(2) Seq.prems(1) show ?case by simp
next
  case (Alt r1 r2)
  then show ?case by auto
next
  case Eol
  then show ?case by (simp split: if_splits)
qed simp_all

lemma js_match_whole:
  assumes "[] \<in> set (rx_rest r s)" "rx_anchored r"
  shows "js_match r s = Some s"
proof -
  from assms(1) obtain s' rest where c: "rx_rest r s = s' # rest"
    by (cases "rx_rest r s") auto
  then have "s' \<in> set (rx_rest r s)" by simp
  with assms(2) have "s' = []" by (rule rx_anchored_rest)
  with c show ?thesis by (simp add: js_match.simps[of r s])
qed

lemma anchored_regexes:
  "rx_anchored testAnyMatch" "rx_anchored testStartStop" "rx_anchored testCIDR"
  "rx_anchored testSingleIP" "rx_anchored testNmapHyphenOrSingle"
  by (simp_all add: testAnyMatch_def testStartStop_def testCIDR_def testSingleIP_def
      testNmapHyphenOrSingle_def)

lemma js_match_empty: "js_match testAnyMatch [] = None"
  by code_simp

lemma js_replace_first_self: "js_replace_first t t = []"
  by (cases t) simp_all

lemma single_token:
  assumes "[] \<in> set (rx_rest testAnyMatch tok)" "expand_token tok = Inr l"
  shows "ListIPAddresses tok = Inr l"
proof -
  from assms(1) have m: "js_match testAnyMatch tok = Some tok"
    by (rule js_match_whole) (rule anchored_regexes)
  have s: "strip_token tok tok = []"
    by (simp add: strip_token_def js_replace_first_self js_trim_def)
  have "parse_loop [] l = Inr l"
    by (subst parse_loop.simps) (simp add: js_match_empty)
  with m s assms(2) show ?thesis
    unfolding ListIPAddresses_def by (subst parse_loop.simps) simp
qed

lemma octet_dot_accepts:
  "n \<le> 255 \<Longrightarrow> rest \<in> set (rx_rest (Seq octet (Chr CHR ''.'')) (dec n @ CHR ''.'' # rest))"
  by (rule rx_in_Seq[OF octet_accepts rx_in_Chr])

lemma dotted_quad_accepts:
  assumes "a \<le> 255" "b \<le> 255" "c \<le> 255" "d \<le> 255"
  shows "rest \<in> set (rx_rest dotted_quad (dotted a b c d @ rest))"
proof -
  have "dotted a b c d @ rest =
        dec a @ CHR ''.'' # dec b @ CHR ''.'' # dec c @ CHR ''.'' # dec d @ rest"
    by (simp add: dotted_def)
  moreover have "rest \<in> set (rx_rest dotted_quad
        (dec a @ CHR ''.'' # dec b @ CHR ''.'' # dec c @ CHR ''.'' # dec d @ rest))"
    unfolding dotted_quad_def rep3_def
    by (intro rx_in_Seq[OF rx_in_Seq[OF octet_dot_accepts rx_in_Seq[OF octet_dot_accepts octet_dot_accepts]]
          octet_accepts] assms)
  ultimately show ?thesis by simp
qed

lemma start_stop_accepts:
  assumes "a \<le> 255" "b \<le> 255" "c \<le> 255" "d \<le> 255"
    and "e \<le> 255" "f \<le> 255" "g \<le> 255" "h \<le> 255"
  shows "[] \<in> set (rx_rest testStartStop (dotted a b c d @ ''-'' @ dotted e f g h))"
proof -
  have 1: "CHR ''-'' # dotted e f g h \<in>
      set (rx_rest dotted_quad (dotted a b c d @ CHR ''-'' # dotted e f g h))"
    using assms by (intro dotted_quad_accepts)
  have 2: "[] \<in> set (rx_rest dotted_quad (dotted e f g h))"
    using dotted_quad_accepts[OF assms(5-8), of "[]"] by simp
  have "[] \<in> set (rx_rest testStartStop (dotted a b c d @ CHR ''-'' # dotted e f g h))"
    unfolding testStartStop_def
    by (rule rx_in_Seq[OF 1 rx_in_Seq[OF rx_in_Chr rx_in_Seq[OF 2 rx_in_Eol]]])
  then show ?thesis by simp
qed

lemma start_stop_expand:
  assumes "a \<le> 255" "b \<le> 255" "c \<le> 255" "d \<le> 255"
    and "e \<le> 255" "f \<le> 255" "g \<le> 255" "h \<le> 255"
  shows "expand_token (dotted a b c d @ ''-'' @ dotted e f g h) =
         Inr (map ip_text [ip_value a b c d .. ip_value e f g h])"
proof -
  let ?tok = "dotted a b c d @ ''-'' @ dotted e f g h"
  have "js_match testStartStop ?tok = Some ?tok"
    by (rule js_match_whole[OF start_stop_accepts[OF assms] anchored_regexes(2)])
  then have t: "js_test testStartStop ?tok" by (simp add: js_test_def)
  have sp: "js_split CHR ''-'' ?tok = [dotted a b c d, dotted e f g h]"
    by (simp add: js_split_append js_split_no_sep hyphen_not_in_dotted)
  have i: "int2ip = ip_text" by (rule ext) (rule int2ip_eq)
  show ?thesis
    unfolding expand_token_def
    by (simp only: t if_True sp js_index.simps One_nat_def option.case prod.case
        ip2int_dotted[OF assms(1-4)] ip2int_dotted[OF assms(5-8)] i)
qed

lemma start_stop_in_any:
  "[] \<in> set (rx_rest testStartStop tok) \<Longrightarrow> [] \<in> set (rx_rest testAnyMatch tok)"
  unfolding testStartStop_def testAnyMatch_def by (rule rx_in_Alt1)

section \<open>CIDR blocks\<close>

text \<open>
  The prefix-length expression accepts the decimal text of exactly the numbers 1 to 32.
  For such a prefix length \<open>P\<close> the mask is \<open>- 2^(32-P)\<close> as a signed 32-bit value, the
  masked start address is the network address (less \<open>2^32\<close> when the address has its
  high bit set, since \<open>&\<close> yields a signed value), and \<open>int2ip\<close> renders an integer and the
  integer less \<open>2^32\<close> alike.
\<close>

lemma prefix_len_table:
  "list_all (\<lambda>P. ([] \<in> set (rx_rest prefix_len (dec P))) = (1 \<le> P \<and> P \<le> 32)) [0..<100]"
  by code_simp

lemma prefix_len_short: "s' \<in> set (rx_rest prefix_len s) \<Longrightarrow> length s \<le> length s' + 2"
  unfolding prefix_len_def by (auto split: list.splits if_splits)

lemma dec_long: "100 \<le> n \<Longrightarrow> 3 \<le> length (dec n)"
proof -
  assume n: "100 \<le> n"
  have "dec n = dec (n div 10) @ [digit_char (n mod 10)]"
    using n by (subst dec.simps) simp
  moreover have "dec (n div 10) = dec (n div 10 div 10) @ [digit_char (n div 10 mod 10)]"
    using n by (subst dec.simps) simp
  moreover have "1 \<le> length (dec (n div 10 div 10))"
    using dec_not_Nil[of "n div 10 div 10"] by (cases "dec (n div 10 div 10)") auto
  ultimately show ?thesis by simp
qed

lemma prefix_len_accepts_iff: "[] \<in> set (rx_rest prefix_len (dec P)) \<longleftrightarrow> 1 \<le> P \<and> P \<le> 32"
proof (cases "P < 100")
  case True
  then have "P \<in> set [0..<100]" by simp
  with prefix_len_table show ?thesis unfolding list_all_iff by blast
next
  case False
  then have "3 \<le> length (dec P)" by (intro dec_long) simp
  moreover have "length (dec P) \<le> 2" if "[] \<in> set (rx_rest prefix_len (dec P))"
    using prefix_len_short[OF that] by simp
  ultimately show ?thesis using False by auto
qed

lemma ToInt32_ones: "ToInt32 0xffffffff = - 1"
  by (simp add: ToInt32_def)

lemma ToInt32_neg_pow:
  assumes "k \<le> 31"
  shows "ToInt32 (- (2 ^ k)) = - (2 ^ k)"
proof -
  have "(2::int) ^ k \<le> 2 ^ 31" using assms by (intro power_increasing) auto
  moreover have "(0::int) < 2 ^ k" by simp
  ultimately show ?thesis
    unfolding ToInt32_def by (intro signed_take_bit_int_eq_self) linarith+
qed

lemma subnetMaskToNumber_dec:
  assumes "1 \<le> P" "P \<le> 32"
  shows "subnetMaskToNumber (Some (dec P)) = - (2 ^ (32 - P))"
proof -
  have n: "nan0 (num_add (Some 32) (map_option uminus (Number_of (Some (dec P))))) = int (32 - P)"
    using assms by (simp add: Number_of_def Number_dec num_add_def nan0_def)
  have c: "nat (ToUint32 (int (32 - P)) mod 32) = 32 - P"
    using assms shift_count[of "int (32 - P)"] by simp
  have k: "32 - P \<le> 31" using assms by simp
  have "js_shl 0xffffffff (int (32 - P)) = - (2 ^ (32 - P))"
    unfolding js_shl_def c ToInt32_ones
    by (simp add: push_bit_eq_mult ToInt32_neg_pow[OF k])
  then show ?thesis
    unfolding subnetMaskToNumber_def n
    by (simp add: js_and_def ToInt32_ones ToInt32_neg_pow[OF k])
qed

lemma and_neg_pow: "(w :: int) AND - (2 ^ k) = w div 2 ^ k * 2 ^ k"
proof -
  have "w AND NOT (mask k) = push_bit k (drop_bit k w)"
    by (auto simp: bit_eq_iff bit_simps)
  then show ?thesis
    by (simp add: minus_exp_eq_not_mask push_bit_eq_mult drop_bit_eq_div)
qed

lemma signed_value:
  assumes "0 \<le> v" "v < 2 ^ 32"
  shows "ToInt32 v = v - 2 ^ 32 * of_bool (2 ^ 31 \<le> v)"
proof (cases "v < 2 ^ 31")
  case True
  with assms show ?thesis by (simp add: ToInt32_def signed_take_bit_int_eq_self)
next
  case False
  have "signed_take_bit 31 v = signed_take_bit 31 (v - 2 ^ 32)"
    by (simp add: signed_take_bit_eq_iff_take_bit_eq take_bit_eq_mod)
  also have "\<dots> = v - 2 ^ 32"
    using False assms by (intro signed_take_bit_int_eq_self) auto
  finally show ?thesis using False by (simp add: ToInt32_def)
qed

lemma masked_start:
  assumes "0 \<le> v" "v < 2 ^ 32" "k \<le> 31"
  shows "js_and v (- (2 ^ k)) = (v - v mod 2 ^ k) - 2 ^ 32 * of_bool (2 ^ 31 \<le> v)"
proof -
  let ?ob = "of_bool (2 ^ 31 \<le> v) :: int"
  have p: "(2::int) ^ 32 = 2 ^ k * 2 ^ (32 - k)"
    using assms(3) by (simp flip: power_add)
  have "js_and v (- (2 ^ k)) = (v - 2 ^ 32 * ?ob) div 2 ^ k * 2 ^ k"
    by (simp add: js_and_def ToInt32_neg_pow[OF assms(3)] signed_value[OF assms(1,2)] and_neg_pow)
  also have "(v - 2 ^ 32 * ?ob) div 2 ^ k = v div 2 ^ k - 2 ^ (32 - k) * ?ob"
  proof -
    have "v - 2 ^ 32 * ?ob = v + 2 ^ k * (- (2 ^ (32 - k) * ?ob))"
      by (simp only: p mult.assoc mult_minus_right diff_conv_add_uminus)
    also have "\<dots> div 2 ^ k = - (2 ^ (32 - k) * ?ob) + v div 2 ^ k"
      by (rule div_mult_self2) simp
    finally show ?thesis by simp
  qed
  also have "(v div 2 ^ k - 2 ^ (32 - k) * ?ob) * 2 ^ k = v div 2 ^ k * 2 ^ k - 2 ^ 32 * ?ob"
    by (simp only: p) (simp add: algebra_simps)
  also have "v div 2 ^ k * 2 ^ k = v - v mod 2 ^ k"
    by (simp add: minus_mod_eq_div_mult)
  finally show ?thesis .
qed

lemma octet_periodic:
  assumes "j \<le> 24"
  shows "(n + 2 ^ 32 * m) div 2 ^ j mod 256 = n div 2 ^ j mod (256 :: int)"
proof -
  have p: "(2::int) ^ 32 = 2 ^ j * (256 * 2 ^ (24 - j))"
  proof -
    have "(2::int) ^ 32 = 2 ^ (j + (8 + (24 - j)))" using assms by simp
    then show ?thesis by (simp only: power_add) simp
  qed
  have "(n + 2 ^ 32 * m) div 2 ^ j = (n + 2 ^ j * (256 * 2 ^ (24 - j) * m)) div 2 ^ j"
    by (simp only: p mult.assoc)
  also have "\<dots> = 256 * 2 ^ (24 - j) * m + n div 2 ^ j"
    by (rule div_mult_self2) simp
  finally show ?thesis by (simp add: mult.assoc)
qed

lemma ip_text_periodic: "ip_text (n + 2 ^ 32 * m) = ip_text n"
proof -
  have "(n + 2 ^ 32 * m) mod 256 = n mod 256"
    using octet_periodic[of 0 n m] by simp
  then show ?thesis
    unfolding ip_text_def
    by (simp only: octet_periodic[of 24] octet_periodic[of 16] octet_periodic[of 8] le_refl)
qed

lemma map_upto_shift: "map f [a + c .. b + c] = map (\<lambda>i. f (i + c)) [a .. b]"
proof (rule nth_equalityI)
  show "length (map f [a + c .. b + c]) = length (map (\<lambda>i. f (i + c)) [a .. b])"
    by simp
next
  fix i assume "i < length (map f [a + c .. b + c])"
  then have i: "a + int i \<le> b" by simp
  then have "a + c + int i \<le> b + c" by simp
  then have "[a + c .. b + c] ! i = a + c + int i" by (rule nth_upto)
  moreover from i have "[a .. b] ! i = a + int i" by (rule nth_upto)
  ultimately show "map f [a + c .. b + c] ! i = map (\<lambda>i. f (i + c)) [a .. b] ! i"
    using i by (simp add: add.commute add.left_commute)
qed

lemma cidr_suffix_accepts:
  assumes "1 \<le> P" "P \<le> 32"
  shows "[] \<in> set (rx_rest cidr_suffix (CHR ''/'' # dec P))"
  unfolding cidr_suffix_def
  using assms by (intro rx_in_Seq[OF rx_in_Chr]) (simp add: prefix_len_accepts_iff)

lemma cidr_accepts_any:
  assumes "a \<le> 255" "b \<le> 255" "c \<le> 255" "d \<le> 255" "1 \<le> P" "P \<le> 32"
  shows "[] \<in> set (rx_rest testAnyMatch (dotted a b c d @ ''/'' @ dec P))"
proof -
  have 1: "CHR ''/'' # dec P \<in> set (rx_rest dotted_quad (dotted a b c d @ CHR ''/'' # dec P))"
    using assms by (intro dotted_quad_accepts)
  have "[] \<in> set (rx_rest (Seq dotted_quad (Seq (Opt cidr_suffix) Eol))
                          (dotted a b c d @ CHR ''/'' # dec P))"
    by (rule rx_in_Seq[OF 1 rx_in_Seq[OF rx_in_Opt1[OF cidr_suffix_accepts[OF assms(5,6)]] rx_in_Eol]])
  then show ?thesis
    unfolding testAnyMatch_def by (intro rx_in_Alt2 rx_in_Alt1) simp
qed

lemma cidr_accepts_test:
  assumes "a \<le> 255" "b \<le> 255" "c \<le> 255" "d \<le> 255" "1 \<le> P" "P \<le> 32"
  shows "js_test testCIDR (dotted a b c d @ ''/'' @ dec P)"
proof -
  have 1: "CHR ''/'' # dec P \<in> set (rx_rest dotted_quad (dotted a b c d @ CHR ''/'' # dec P))"
    using assms by (intro dotted_quad_accepts)
  have "[] \<in> set (rx_rest testCIDR (dotted a b c d @ CHR ''/'' # dec P))"
    unfolding testCIDR_def
    by (rule rx_in_Seq[OF 1 rx_in_Seq[OF rx_in_Plus[OF cidr_suffix_accepts[OF assms(5,6)]] rx_in_Eol]])
  then have "js_match testCIDR (dotted a b c d @ CHR ''/'' # dec P) =
             Some (dotted a b c d @ CHR ''/'' # dec P)"
    by (rule js_match_whole) (rule anchored_regexes)
  then show ?thesis by (simp add: js_test_def)
qed

lemma no_hyphen_no_start_stop: "CHR ''-'' \<notin> set tok \<Longrightarrow> \<not> js_test testStartStop tok"
proof
  assume h: "CHR ''-'' \<notin> set tok" and t: "js_test testStartStop tok"
  from js_test_count[OF t, of "CHR ''-''"] have "1 \<le> count_list tok CHR ''-''"
    by (simp add: testStartStop_hyphens)
  with h show False by (simp add: count_list_0_iff)
qed

lemma cidr_expand:
  assumes "a \<le> 255" "b \<le> 255" "c \<le> 255" "d \<le> 255" "1 \<le> P" "P \<le> 32"
  shows "expand_token (dotted a b c d @ ''/'' @ dec P) =
         Inr (map ip_text [network (ip_value a b c d) P ..
                           network (ip_value a b c d) P + 2 ^ (32 - P) - 1])"
proof -
  let ?tok = "dotted a b c d @ ''/'' @ dec P"
  let ?v = "ip_value a b c d"
  let ?k = "32 - P"
  let ?ob = "of_bool (2 ^ 31 \<le> ?v) :: int"
  let ?net = "network ?v P"
  have nss: "\<not> js_test testStartStop ?tok"
    by (rule no_hyphen_no_start_stop) (simp add: hyphen_not_in_dotted hyphen_not_in_dec)
  have cidr: "js_test testCIDR ?tok" by (rule cidr_accepts_test[OF assms])
  have sp: "js_split CHR ''/'' ?tok = [dotted a b c d, dec P]"
    by (simp add: js_split_append js_split_no_sep slash_not_in_dotted slash_not_in_dec)
  have k: "?k \<le> 31" using assms by simp
  have sa: "js_and (ip2int (dotted a b c d)) (subnetMaskToNumber (Some (dec P))) =
            ?net + 2 ^ 32 * (- ?ob)"
    unfolding ip2int_dotted[OF assms(1-4)] subnetMaskToNumber_dec[OF assms(5,6)]
      masked_start[OF ip_value_bounds[OF assms(1-4)] k] network_def
    by simp
  have i: "int2ip = ip_text" by (rule ext) (rule int2ip_eq)
  have n: "Number_of (Some (dec P)) = Some (int P)" by (simp add: Number_of_def Number_dec)
  have le: "\<not> 32 < int P" using assms by simp
  have e: "nat (32 - int P) = ?k" by simp
  have "expand_token ?tok =
        Inr (map ip_text [?net + 2 ^ 32 * (- ?ob) .. 2 ^ ?k + (?net + 2 ^ 32 * (- ?ob)) - 1])"
    unfolding expand_token_def
    by (simp only: nss cidr if_True if_False sp js_index.simps One_nat_def option.case
        Let_def sa n le e i)
  also have "2 ^ ?k + (?net + 2 ^ 32 * (- ?ob)) - 1 = (?net + 2 ^ ?k - 1) + 2 ^ 32 * (- ?ob)"
    by (simp only: algebra_simps)
  also have "map ip_text [?net + 2 ^ 32 * (- ?ob) .. (?net + 2 ^ ?k - 1) + 2 ^ 32 * (- ?ob)] =
             map ip_text [?net .. ?net + 2 ^ ?k - 1]"
    by (simp only: map_upto_shift ip_text_periodic)
  finally show ?thesis .
qed

lemma network_props:
  assumes "0 \<le> v"
  shows "network v P mod 2 ^ (32 - P) = 0" "network v P \<le> v" "v < network v P + 2 ^ (32 - P)"
    "0 \<le> network v P"
proof -
  show "network v P mod 2 ^ (32 - P) = 0"
    by (simp add: network_def minus_mod_eq_div_mult)
  have "0 \<le> v mod 2 ^ (32 - P)" "v mod 2 ^ (32 - P) < 2 ^ (32 - P)" by simp_all
  then show "network v P \<le> v" "v < network v P + 2 ^ (32 - P)"
    by (simp_all add: network_def)
  have "v mod 2 ^ (32 - P) \<le> v" using assms by (rule zmod_le_nonneg_dividend)
  then show "0 \<le> network v P" by (simp add: network_def)
qed

lemma cidr_parse:
  assumes "a \<le> 255" "b \<le> 255" "c \<le> 255" "d \<le> 255" "1 \<le> P" "P \<le> 32"
  shows "ListIPAddresses (dotted a b c d @ ''/'' @ dec P) =
         Inr (map ip_text [network (ip_value a b c d) P ..
                           network (ip_value a b c d) P + 2 ^ (32 - P) - 1])"
  by (rule single_token[OF cidr_accepts_any[OF assms] cidr_expand[OF assms]])

lemma cidr_count:
  "length (map ip_text [network v P .. network v P + 2 ^ (32 - P) - 1]) = 2 ^ (32 - P)"
proof -
  have "nat ((2::int) ^ (32 - P)) = 2 ^ (32 - P)"
    by (simp add: nat_power_eq)
  then show ?thesis by simp
qed

section \<open>Which prefix lengths are accepted\<close>

text \<open>
  A match of \<open>testAnyMatch\<close> holds no blank, so it never reaches into the text before a
  blank. A match inside a token \<open>A.B.C.D/P\<close> holds three dots, hence the slash, hence it
  can only come from the CIDR alternative, whose prefix-length part must then match the
  text of \<open>P\<close>.
\<close>

lemma js_match_skip:
  assumes "rx_anchored r" "p = [] \<or> \<not> rx_may r (last p)"
  shows "js_match r (p @ s) = js_match r s"
  using assms(2)
proof (induction p)
  case Nil
  then show ?case by simp
next
  case (Cons x p)
  then have l: "\<not> rx_may r (last (x # p))" by simp
  have e: "rx_rest r (x # p @ s) = []"
  proof (rule ccontr)
    assume "rx_rest r (x # p @ s) \<noteq> []"
    then obtain s' where s': "s' \<in> set (rx_rest r (x # p @ s))"
      by (cases "rx_rest r (x # p @ s)") auto
    with assms(1) have "s' = []" by (rule rx_anchored_rest)
    with rx_rest_decomp[OF s', of undefined] obtain u where
      u: "x # p @ s = u" "\<forall>c\<in>set u. rx_may r c" by auto
    have "last (x # p) \<in> set (x # p @ s)"
      using last_in_set[of "x # p"] by auto
    with u have "rx_may r (last (x # p))" by blast
    with l show False by simp
  qed
  have "js_match r (x # p @ s) = js_match r (p @ s)"
    by (subst js_match.simps) (simp add: e)
  moreover have "p = [] \<or> \<not> rx_may r (last p)"
    using l by (cases p) auto
  ultimately show ?case using Cons.IH by simp
qed

lemma rx_Seq_iff:
  "s' \<in> set (rx_rest (Seq r1 r2) s) \<longleftrightarrow> (\<exists>m\<in>set (rx_rest r1 s). s' \<in> set (rx_rest r2 m))"
  by auto

lemma space_not_matched: "\<not> rx_may testAnyMatch CHR '' ''"
  by (simp add: testAnyMatch_def dotted_quad_def hyphen_quad_def rep3_def octet_def
      octet_or_range_def cidr_suffix_def prefix_len_def)

lemma slash_not_in_quad: "\<not> rx_may dotted_quad CHR ''/''"
  by (simp add: dotted_quad_def rep3_def octet_def)

lemma slash_not_in_hyphen_quad: "\<not> rx_may (Seq hyphen_quad Eol) CHR ''/''"
  by (simp add: hyphen_quad_def rep3_def octet_def octet_or_range_def)

lemma dots_of_dec: "count_list (dec n) CHR ''.'' = 0"
  by (simp add: count_list_0_iff dot_not_in_dec)

text \<open>A suffix of a CIDR token that holds a slash ends in the slash and the prefix length.\<close>

lemma cidr_suffix_cases:
  assumes "suffix t (q @ CHR ''/'' # dec P)" "CHR ''/'' \<notin> set q"
  shows "suffix t (dec P) \<or> dropWhile (\<lambda>c. c \<noteq> CHR ''/'') t = CHR ''/'' # dec P"
proof -
  from assms(1) consider "suffix t (CHR ''/'' # dec P)"
    | zs where "t = zs @ CHR ''/'' # dec P" "suffix zs q"
    by (auto simp: suffix_append)
  then show ?thesis
  proof cases
    case 1
    then show ?thesis by (auto simp: suffix_Cons)
  next
    case 2
    then have "set zs \<subseteq> set q" by (intro set_mono_suffix)
    with assms(2) have "\<forall>c\<in>set zs. c \<noteq> CHR ''/''" by auto
    then have "dropWhile (\<lambda>c. c \<noteq> CHR ''/'') (zs @ CHR ''/'' # dec P) = CHR ''/'' # dec P"
      by (simp add: dropWhile_append3)
    with 2 show ?thesis by simp
  qed
qed

lemma cidr_alternative_slash:
  assumes "[] \<in> set (rx_rest (Seq dotted_quad (Seq (Opt cidr_suffix) Eol)) t)"
    and "CHR ''/'' \<in> set t"
  shows "\<exists>m. dropWhile (\<lambda>c. c \<noteq> CHR ''/'') t = CHR ''/'' # m \<and> [] \<in> set (rx_rest prefix_len m)"
proof -
  from assms(1) obtain m where m: "m \<in> set (rx_rest dotted_quad t)"
    and r: "[] \<in> set (rx_rest (Seq (Opt cidr_suffix) Eol) m)"
    unfolding rx_Seq_iff[of _ dotted_quad] by blast
  from rx_rest_decomp[OF m, of undefined] obtain w where
    w: "t = w @ m" "\<forall>c\<in>set w. rx_may dotted_quad c" by blast
  have nw: "CHR ''/'' \<notin> set w"
  proof
    assume "CHR ''/'' \<in> set w"
    with w(2) have "rx_may dotted_quad CHR ''/''" by (rule bspec)
    with slash_not_in_quad show False by (rule notE)
  qed
  have "m \<noteq> []"
  proof
    assume "m = []"
    with w(1) have "t = w" by simp
    with assms(2) nw show False by (simp only:)
  qed
  from r obtain m' where "m' \<in> set (rx_rest (Opt cidr_suffix) m)" "[] \<in> set (rx_rest Eol m')"
    unfolding rx_Seq_iff[of _ "Opt cidr_suffix"] by blast
  then have "[] \<in> set (rx_rest (Opt cidr_suffix) m)" by (auto split: if_splits)
  with \<open>m \<noteq> []\<close> have "[] \<in> set (rx_rest cidr_suffix m)" by auto
  then obtain m1 where m1: "m = CHR ''/'' # m1" "[] \<in> set (rx_rest prefix_len m1)"
    unfolding cidr_suffix_def by (cases m) (auto split: if_splits)
  have "x \<noteq> CHR ''/''" if "x \<in> set w" for x
  proof
    assume "x = CHR ''/''"
    with that have "CHR ''/'' \<in> set w" by (simp only:)
    with nw show False by (rule notE)
  qed
  then have "dropWhile (\<lambda>c. c \<noteq> CHR ''/'') (w @ m) = dropWhile (\<lambda>c. c \<noteq> CHR ''/'') m"
    by (rule dropWhile_append2)
  with w(1) m1 show ?thesis by simp
qed

lemma cidr_match_prefix_range:
  assumes "js_match testAnyMatch (dotted a b c d @ ''/'' @ dec P) = Some t"
  shows "1 \<le> P \<and> P \<le> 32"
proof -
  let ?tok = "dotted a b c d @ ''/'' @ dec P"
  from js_match_decomp[OF assms] obtain p q where tok: "?tok = p @ t @ q"
    and q: "q \<in> set (rx_rest testAnyMatch (t @ q))" by blast
  from rx_anchored_rest[OF anchored_regexes(1) q] have q0: "q = []" .
  with q have t: "[] \<in> set (rx_rest testAnyMatch t)" by simp
  from tok q0 have suf: "suffix t (dotted a b c d @ CHR ''/'' # dec P)"
    by (simp add: suffix_def)
  from rx_rest_decomp[OF t, of "CHR ''.''"] have dots: "3 \<le> count_list t CHR ''.''"
    by (simp add: testAnyMatch_dots)
  have nd: "\<not> suffix t (dec P)"
  proof
    assume "suffix t (dec P)"
    then have "set t \<subseteq> set (dec P)" by (rule set_mono_suffix)
    with dot_not_in_dec[of P] have "CHR ''.'' \<notin> set t" by auto
    then have "count_list t CHR ''.'' = 0" by (simp add: count_list_0_iff)
    with dots show False by simp
  qed
  with cidr_suffix_cases[OF suf slash_not_in_dotted]
  have dw: "dropWhile (\<lambda>c. c \<noteq> CHR ''/'') t = CHR ''/'' # dec P" by blast
  then have "CHR ''/'' \<in> set (dropWhile (\<lambda>c. c \<noteq> CHR ''/'') t)" by simp
  then have sl: "CHR ''/'' \<in> set t" by (rule set_dropWhileD)
  from suf have "set t \<subseteq> set (dotted a b c d @ CHR ''/'' # dec P)"
    by (rule set_mono_suffix)
  then have nh: "CHR ''-'' \<notin> set t"
    using hyphen_not_in_dotted[of a b c d] hyphen_not_in_dec[of P] by auto
  from t have "[] \<in> set (rx_rest testStartStop t) \<or>
      [] \<in> set (rx_rest (Seq dotted_quad (Seq (Opt cidr_suffix) Eol)) t) \<or>
      [] \<in> set (rx_rest (Seq hyphen_quad Eol) t)"
    unfolding testAnyMatch_def testStartStop_def
    by (simp only: rx_rest.simps(4) set_append Un_iff)
  then consider
    "[] \<in> set (rx_rest testStartStop t)"
    | "[] \<in> set (rx_rest (Seq dotted_quad (Seq (Opt cidr_suffix) Eol)) t)"
    | "[] \<in> set (rx_rest (Seq hyphen_quad Eol) t)"
    by blast
  then show ?thesis
  proof cases
    case 1
    from rx_rest_decomp[OF 1, of "CHR ''-''"] have "1 \<le> count_list t CHR ''-''"
      by (simp add: testStartStop_hyphens)
    with nh show ?thesis by (simp add: count_list_0_iff)
  next
    case 2
    from cidr_alternative_slash[OF 2 sl] dw have "[] \<in> set (rx_rest prefix_len (dec P))"
      by auto
    then show ?thesis by (simp add: prefix_len_accepts_iff)
  next
    case 3
    from rx_rest_decomp[OF 3, of undefined] have "\<forall>c\<in>set t. rx_may (Seq hyphen_quad Eol) c"
      by auto
    with sl slash_not_in_hyphen_quad show ?thesis by blast
  qed
qed

section \<open>Per-octet ranges\<close>




















section \<open>Port lines\<close>

text \<open>
  A port category that is a space-separated list of decimal port numbers splits into the
  texts of its numbers (an empty category into one empty word, which the loop skips).
  On words that are numbers or empty the comparator is consistent, and the sort is the
  stable sort by numeric value.
\<close>

lemma js_split_not_Nil: "js_split c s \<noteq> []"
  by (induction s) (auto split: list.splits)

lemma js_split_sep: "js_split c (u @ c # v) = js_split c u @ js_split c v"
proof (induction u)
  case Nil
  then show ?case by simp
next
  case (Cons x u)
  obtain w ws where w: "js_split c u = w # ws"
    using js_split_not_Nil[of c u] by (cases "js_split c u") auto
  with Cons show ?case by simp
qed

lemma js_split_port_list: "js_split CHR '' '' (port_list_text ps) = port_words ps"
proof (induction ps rule: port_list_text.induct)
  case 1
  then show ?case by (simp add: port_words_def)
next
  case (2 p)
  then show ?case by (simp add: port_words_def js_split_no_sep space_not_in_dec)
next
  case (3 p q ps)
  have "js_split CHR '' '' (dec p @ CHR '' '' # port_list_text (q # ps)) =
        js_split CHR '' '' (dec p) @ js_split CHR '' '' (port_list_text (q # ps))"
    by (rule js_split_sep)
  with 3 show ?case by (simp add: port_words_def js_split_no_sep space_not_in_dec)
qed

lemma Number_empty: "Number [] = Some 0"
  by (simp add: Number_def js_trim_def)

lemma js_insert_insort:
  assumes "Number x \<noteq> None" "\<forall>y\<in>set ys. Number y \<noteq> None"
  shows "js_insert port_cmp x ys = insort_key port_key x ys"
  using assms(2)
proof (induction ys)
  case Nil
  then show ?case by simp
next
  case (Cons y ys)
  from assms(1) obtain a where a: "Number x = Some a" by auto
  from Cons.prems obtain b where b: "Number y = Some b" by auto
  have "port_cmp x y = Some (a - b)" by (simp add: port_cmp_def num_add_def a b)
  moreover have "port_key x = a" "port_key y = b" by (simp_all add: port_key_def nan0_def a b)
  ultimately show ?case using Cons by auto
qed

lemma js_sort_sort_key:
  assumes "\<forall>y\<in>set ws. Number y \<noteq> None"
  shows "js_sort port_cmp ws = sort_key port_key ws"
  using assms
proof (induction ws)
  case Nil
  then show ?case by (simp add: js_sort_def)
next
  case (Cons w ws)
  then have IH: "js_sort port_cmp ws = sort_key port_key ws" by simp
  have "\<forall>y\<in>set (sort_key port_key ws). Number y \<noteq> None"
    using Cons.prems by simp
  with Cons.prems have "js_insert port_cmp w (sort_key port_key ws) =
      insort_key port_key w (sort_key port_key ws)"
    by (intro js_insert_insort) simp_all
  with IH show ?case by (simp add: js_sort_def)
qed

lemma insort_key_map:
  "insort_key f (g x) (map g ys) = map g (insort_key (\<lambda>y. f (g y)) x ys)"
  by (induction ys) simp_all

lemma sort_key_map: "sort_key f (map g xs) = map g (sort_key (\<lambda>y. f (g y)) xs)"
  by (induction xs) (simp_all add: insort_key_map)

lemma insort_key_int: "insort_key (\<lambda>p. int p) x ys = insort x ys"
  by (induction ys) simp_all

lemma sort_key_int: "sort_key (\<lambda>p. int p) xs = sort xs"
  by (induction xs) (simp_all add: insort_key_int)

lemma port_key_dec: "port_key (dec p) = int p"
  by (simp add: port_key_def Number_dec nan0_def)

lemma filter_port_words: "filter (\<lambda>w. w \<noteq> []) (port_words ps) = map dec ps"
  by (simp add: port_words_def filter_map o_def dec_not_Nil)

lemma port_words_Number: "\<forall>w\<in>set (port_words ps). Number w \<noteq> None"
  by (auto simp: port_words_def Number_empty Number_dec)

lemma concat_map_filter:
  "concat (map (\<lambda>w. if w \<noteq> [] then f w else []) ws) = concat (map f (filter (\<lambda>w. w \<noteq> []) ws))"
  by (induction ws) simp_all

lemma port_lines_sorted:
  assumes "PortsFiltered machine = port_list_text fs"
    and "PortsClosed machine = port_list_text cs"
    and "PortsOpen machine = port_list_text os"
  shows "port_lines False machine =
         concat (map (\<lambda>p. port_line machine (dec p)) (sort (fs @ cs @ os)))"
proof -
  let ?ws = "port_words fs @ port_words cs @ port_words os"
  have split: "js_split CHR '' '' (PortsFiltered machine @ '' '' @ PortsClosed machine @ '' '' @
                            PortsOpen machine) = ?ws"
    unfolding assms by (simp add: js_split_sep js_split_port_list)
  have num: "\<forall>w\<in>set ?ws. Number w \<noteq> None"
    using port_words_Number by auto
  have "filter (\<lambda>w. w \<noteq> []) (sortedports_of machine) =
        filter (\<lambda>w. w \<noteq> []) (sort_key port_key ?ws)"
    unfolding sortedports_of_def split js_sort_sort_key[OF num] ..
  also have "\<dots> = sort_key port_key (filter (\<lambda>w. w \<noteq> []) ?ws)"
    by (rule filter_sort)
  also have "filter (\<lambda>w. w \<noteq> []) ?ws = map dec (fs @ cs @ os)"
    by (simp add: filter_port_words)
  also have "sort_key port_key (map dec (fs @ cs @ os)) = map dec (sort (fs @ cs @ os))"
    by (simp only: sort_key_map port_key_dec sort_key_int)
  finally have f: "filter (\<lambda>w. w \<noteq> []) (sortedports_of machine) = map dec (sort (fs @ cs @ os))" .
  have "port_lines False machine =
        concat (map (port_line machine) (filter (\<lambda>w. w \<noteq> []) (sortedports_of machine)))"
    unfolding port_lines_def by (simp add: concat_map_filter)
  then show ?thesis by (simp add: f o_def)
qed

section \<open>The claims\<close>

text \<open>
  C1 (as amended): A token \<open>A.B.C.D/P\<close> with octets up to 255 that ends the command
  (at its start or after a blank) is matched and taken as a CIDR block exactly when
  \<open>1 \<le> P \<le> 32\<close>; for every other \<open>P\<close> nothing matches and the parser returns no
  address.
\<close>

theorem cidr_prefix_range:
  assumes "a \<le> 255" "b \<le> 255" "c \<le> 255" "d \<le> 255"
    and "p = [] \<or> last p = CHR '' ''"
  shows "((js_match testAnyMatch (p @ dotted a b c d @ ''/'' @ dec P) =
             Some (dotted a b c d @ ''/'' @ dec P) \<and>
           \<not> js_test testStartStop (dotted a b c d @ ''/'' @ dec P) \<and>
           js_test testCIDR (dotted a b c d @ ''/'' @ dec P)) = (1 \<le> P \<and> P \<le> 32)) \<and>
         (\<not> (1 \<le> P \<and> P \<le> 32) \<longrightarrow>
           js_match testAnyMatch (p @ dotted a b c d @ ''/'' @ dec P) = None \<and>
           ListIPAddresses (p @ dotted a b c d @ ''/'' @ dec P) = Inr [])"
proof -
  let ?tok = "dotted a b c d @ ''/'' @ dec P"
  from assms(5) have "p = [] \<or> \<not> rx_may testAnyMatch (last p)"
    using space_not_matched by auto
  with anchored_regexes(1) have skip: "js_match testAnyMatch (p @ ?tok) = js_match testAnyMatch ?tok"
    by (rule js_match_skip)
  show ?thesis
  proof (cases "1 \<le> P \<and> P \<le> 32")
    case True
    then have P: "1 \<le> P" "P \<le> 32" by simp_all
    have "js_match testAnyMatch ?tok = Some ?tok"
      by (rule js_match_whole[OF cidr_accepts_any[OF assms(1-4) P] anchored_regexes(1)])
    moreover have "\<not> js_test testStartStop ?tok"
      by (rule no_hyphen_no_start_stop) (simp add: hyphen_not_in_dotted hyphen_not_in_dec)
    moreover have "js_test testCIDR ?tok" by (rule cidr_accepts_test[OF assms(1-4) P])
    ultimately show ?thesis using True skip by simp
  next
    case False
    have n: "js_match testAnyMatch ?tok = None"
    proof (cases "js_match testAnyMatch ?tok")
      case (Some t)
      from cidr_match_prefix_range[OF Some] False show ?thesis by simp
    qed simp
    with skip have n': "js_match testAnyMatch (p @ ?tok) = None" by simp
    then have "ListIPAddresses (p @ ?tok) = Inr []"
      unfolding ListIPAddresses_def by (subst parse_loop.simps) simp
    with n' False show ?thesis by simp
  qed
qed

theorem cidr_prefix_range_witness:
  "js_match testAnyMatch ''nmap 10.0.0.0/3'' = Some ''10.0.0.0/3'' \<and>
   js_test testCIDR ''10.0.0.0/3'' \<and>
   js_match testAnyMatch ''nmap 10.0.0.0/0'' = None \<and>
   ListIPAddresses ''nmap 10.0.0.0/0'' = Inr [] \<and>
   ListIPAddresses ''nmap 10.0.0.0/33'' = Inr []"
proof -
  have d: "dotted 10 0 0 0 = ''10.0.0.0''" "dec 3 = ''3''" "dec 0 = ''0''" "dec 33 = ''33''"
    by code_simp+
  have l: "''nmap '' = [] \<or> last ''nmap '' = CHR '' ''" by simp
  have o: "(10::nat) \<le> 255" "(0::nat) \<le> 255" by simp_all
  from cidr_prefix_range[OF o(1) o(2) o(2) o(2) l, of 3]
  have a: "js_match testAnyMatch ''nmap 10.0.0.0/3'' = Some ''10.0.0.0/3'' \<and>
           js_test testCIDR ''10.0.0.0/3''"
    unfolding d by simp
  from cidr_prefix_range[OF o(1) o(2) o(2) o(2) l, of 0]
  have b: "js_match testAnyMatch ''nmap 10.0.0.0/0'' = None \<and>
           ListIPAddresses ''nmap 10.0.0.0/0'' = Inr []"
    unfolding d by simp
  from cidr_prefix_range[OF o(1) o(2) o(2) o(2) l, of 33]
  have c: "ListIPAddresses ''nmap 10.0.0.0/33'' = Inr []"
    unfolding d by simp
  from a b c show ?thesis by simp
qed

text \<open>
  C1 as stated fails for the prefix lengths 1, 2 and 3: \<open>10.0.0.0/3\<close> is matched, taken
  as a CIDR block and expanded to \<open>2^29\<close> addresses.
\<close>

theorem cidr_prefix_3_is_expanded:
  "js_match testAnyMatch ''nmap 10.0.0.0/3'' = Some ''10.0.0.0/3'' \<and>
   \<not> js_test testStartStop ''10.0.0.0/3'' \<and>
   js_test testCIDR ''10.0.0.0/3'' \<and>
   ListIPAddresses ''nmap 10.0.0.0/3'' =
     Inr (map ip_text [network (ip_value 10 0 0 0) 3 ..
                       network (ip_value 10 0 0 0) 3 + 2 ^ (32 - 3) - 1]) \<and>
   length (map ip_text [network (ip_value 10 0 0 0) 3 ..
                        network (ip_value 10 0 0 0) 3 + 2 ^ (32 - 3) - 1]) = 2 ^ 29 \<and>
   ListIPAddresses ''nmap 10.0.0.0/3'' \<noteq> Inr []"
proof -
  have d: "dotted 10 0 0 0 = ''10.0.0.0''" "dec 3 = ''3''"
    by code_simp+
  have m: "js_match testAnyMatch ''nmap 10.0.0.0/3'' = Some ''10.0.0.0/3''"
    by code_simp
  have t: "\<not> js_test testStartStop ''10.0.0.0/3''" "js_test testCIDR ''10.0.0.0/3''"
    by code_simp+
  have s: "strip_token ''10.0.0.0/3'' ''nmap 10.0.0.0/3'' = ''nmap''"
    by code_simp
  have n: "js_match testAnyMatch ''nmap'' = None"
    by code_simp
  let ?l = "map ip_text [network (ip_value 10 0 0 0) 3 .. network (ip_value 10 0 0 0) 3 + 2 ^ (32 - 3) - 1]"
  have e: "expand_token ''10.0.0.0/3'' = Inr ?l"
    using cidr_expand[of 10 0 0 0 3] unfolding d by simp
  have "parse_loop ''nmap'' ?l = Inr ?l"
    by (subst parse_loop.simps) (simp only: n option.case)
  then have r: "ListIPAddresses ''nmap 10.0.0.0/3'' = Inr ?l"
    unfolding ListIPAddresses_def
    by (subst parse_loop.simps) (simp only: m e s option.case sum.case append_Nil)
  have len: "length ?l = 2 ^ 29"
    using cidr_count[of "ip_value 10 0 0 0" 3] by simp
  have "?l \<noteq> []"
  proof
    assume "?l = []"
    then have "length ?l = 0" by (simp only: list.size)
    with len show False by simp
  qed
  with r have "ListIPAddresses ''nmap 10.0.0.0/3'' \<noteq> Inr []" by simp
  with m t r len show ?thesis by (intro conjI)
qed

text \<open>
  C2: The state label of a port line is decided by substring containment in the
  category strings. For a host with port 80 filtered and port 8 closed, the line of port 8
  is labelled filtered, although 8 is a member of the closed category only.
\<close>

theorem port_state_by_substring:
  "createPortScanResults
     [\<lparr>IP = ''10.0.0.1'', PortsOpen = '''', PortsClosed = ''8'', PortsFiltered = ''80'',
       Latency = ''0.01''\<rparr>] ''nmap 10.0.0.1'' =
   Inr (''Starting Nmap 7.95 ( https://nmap.org )'' @ CRLF @
        ''Nmap scan report for 10.0.0.1'' @ CRLF @
        ''Host it up (0.01s latency).'' @ CRLF @
        ''PORT         STATE    SERVICE'' @ CRLF @
        ''8/tcp  filtered '' @ CRLF @
        ''80/tcp  filtered '' @ CRLF @
        CRLF @
        ''Nmap done: 1 IP addresses (1 host up) scanned in 26.18 seconds'' @ CRLF)"
  by code_simp

text \<open>
  C3 (as amended): In the block of a host of a report that is not a ping scan, the
  port lines are one line per port listed in the three categories, a port listed twice
  giving two lines, in ascending order of the numeric port value whatever the order
  inside the categories. The categories are space-separated lists of port numbers in
  decimal.
\<close>

theorem port_lines_per_occurrence:
  assumes "PortsFiltered machine = port_list_text fs"
    and "PortsClosed machine = port_list_text cs"
    and "PortsOpen machine = port_list_text os"
  shows "host_block False machine =
           ''Nmap scan report for '' @ IP machine @ CRLF @
           ''Host it up ('' @ Latency machine @ ''s latency).'' @ CRLF @
           ''PORT         STATE    SERVICE'' @ CRLF @
           concat (map (\<lambda>p. port_line machine (dec p)) (sort (fs @ cs @ os))) @
           CRLF"
  unfolding host_block_def port_lines_sorted[OF assms] by simp

theorem port_lines_per_occurrence_witness:
  "host_block False
     \<lparr>IP = ''10.0.0.1'', PortsOpen = ''10 80'', PortsClosed = ''9'', PortsFiltered = ''443 80'',
      Latency = ''0.01''\<rparr> =
   ''Nmap scan report for 10.0.0.1'' @ CRLF @
   ''Host it up (0.01s latency).'' @ CRLF @
   ''PORT         STATE    SERVICE'' @ CRLF @
   ''9/tcp  closed '' @ CRLF @
   ''10/tcp  open '' @ CRLF @
   ''80/tcp  filtered '' @ CRLF @
   ''80/tcp  filtered '' @ CRLF @
   ''443/tcp  filtered '' @ CRLF @
   CRLF"
  (is "host_block False ?m = ?text")
proof -
  have f: "PortsFiltered ?m = port_list_text [443, 80]" by code_simp
  have c: "PortsClosed ?m = port_list_text [9]" by code_simp
  have o: "PortsOpen ?m = port_list_text [10, 80]" by code_simp
  have s: "sort ([443, 80] @ [9] @ [10, 80]) = [9, 10, 80, 80, 443 :: nat]" by simp
  have "''Nmap scan report for '' @ IP ?m @ CRLF @
        ''Host it up ('' @ Latency ?m @ ''s latency).'' @ CRLF @
        ''PORT         STATE    SERVICE'' @ CRLF @
        concat (map (\<lambda>p. port_line ?m (dec p)) [9, 10, 80, 80, 443]) @ CRLF = ?text"
    by code_simp
  with port_lines_per_occurrence[OF f c o] s show ?thesis by simp
qed

text \<open>
  C3 as stated fails where a port is listed in two categories: port 80, open and
  filtered, gets two lines, not one.
\<close>

theorem duplicate_port_two_lines:
  "createPortScanResults
     [\<lparr>IP = ''10.0.0.1'', PortsOpen = ''80'', PortsClosed = '''', PortsFiltered = ''80'',
       Latency = ''0.01''\<rparr>] ''nmap 10.0.0.1'' =
   Inr (''Starting Nmap 7.95 ( https://nmap.org )'' @ CRLF @
        ''Nmap scan report for 10.0.0.1'' @ CRLF @
        ''Host it up (0.01s latency).'' @ CRLF @
        ''PORT         STATE    SERVICE'' @ CRLF @
        ''80/tcp  filtered '' @ CRLF @
        ''80/tcp  filtered '' @ CRLF @
        CRLF @
        ''Nmap done: 1 IP addresses (1 host up) scanned in 26.18 seconds'' @ CRLF)"
  by code_simp

text \<open>
  C4: The matched text is removed from the command by a replacement of its first
  occurrence, not of the trailing one. When the text of the trailing token occurs earlier
  in the command, the earlier occurrence is cut out and the trailing token is expanded
  again: \<open>nmap 11.1.1.1 1.1.1.1\<close> yields 1.1.1.1 twice and never 11.1.1.1.
\<close>

theorem replace_removes_first_occurrence:
  "ListIPAddresses ''nmap 11.1.1.1 1.1.1.1'' = Inr [''1.1.1.1'', ''1.1.1.1''] \<and>
   ListIPAddresses ''nmap 11.1.1.1'' = Inr [''11.1.1.1''] \<and>
   strip_token ''1.1.1.1'' ''nmap 11.1.1.1 1.1.1.1'' = ''nmap 1 1.1.1.1''"
  by code_simp

text \<open>
  C5: A start-stop token whose two sides are dotted quads of octets up to 255 expands
  to the dotted-quad texts of the integers from the value of the first side to the value
  of the second, ascending; when the second value is smaller the expansion is empty.
\<close>

theorem start_stop_expansion:
  assumes "a \<le> 255" "b \<le> 255" "c \<le> 255" "d \<le> 255"
    and "e \<le> 255" "f \<le> 255" "g \<le> 255" "h \<le> 255"
  shows "ListIPAddresses (dotted a b c d @ ''-'' @ dotted e f g h) =
           Inr (map ip_text [ip_value a b c d .. ip_value e f g h]) \<and>
         (ip_value e f g h < ip_value a b c d \<longrightarrow>
           ListIPAddresses (dotted a b c d @ ''-'' @ dotted e f g h) = Inr []) \<and>
         ip_text (ip_value a b c d) = dotted a b c d \<and>
         ip_text (ip_value e f g h) = dotted e f g h"
proof -
  have "ListIPAddresses (dotted a b c d @ ''-'' @ dotted e f g h) =
           Inr (map ip_text [ip_value a b c d .. ip_value e f g h])"
    by (rule single_token[OF start_stop_in_any[OF start_stop_accepts[OF assms]]
          start_stop_expand[OF assms]])
  then show ?thesis
    using ip_text_ip_value[OF assms(1-4)] ip_text_ip_value[OF assms(5-8)] by simp
qed

theorem start_stop_expansion_witness:
  "ListIPAddresses ''10.0.0.2-10.0.0.2'' = Inr [''10.0.0.2''] \<and>
   ListIPAddresses ''10.0.0.5-10.0.0.3'' = Inr [] \<and>
   ListIPAddresses ''192.168.255.254-192.169.0.1'' =
     Inr [''192.168.255.254'', ''192.168.255.255'', ''192.169.0.0'', ''192.169.0.1'']"
proof -
  have d: "dotted 10 0 0 2 = ''10.0.0.2''" "dotted 10 0 0 5 = ''10.0.0.5''"
    "dotted 10 0 0 3 = ''10.0.0.3''" "dotted 192 168 255 254 = ''192.168.255.254''"
    "dotted 192 169 0 1 = ''192.169.0.1''"
    by code_simp+
  have v: "ip_value 10 0 0 2 = 167772162" "ip_value 10 0 0 5 = 167772165"
    "ip_value 10 0 0 3 = 167772163" "ip_value 192 168 255 254 = 3232301054"
    "ip_value 192 169 0 1 = 3232301057"
    by (simp_all add: ip_value_def)
  have 1: "map ip_text [167772162 .. 167772162] = [''10.0.0.2'']"
    by code_simp
  have 3: "map ip_text [3232301054 .. 3232301057] =
      [''192.168.255.254'', ''192.168.255.255'', ''192.169.0.0'', ''192.169.0.1'']"
    by code_simp
  have a: "ListIPAddresses ''10.0.0.2-10.0.0.2'' = Inr [''10.0.0.2'']"
    using start_stop_expansion[of 10 0 0 2 10 0 0 2] unfolding d v 1 by simp
  have b: "ListIPAddresses ''10.0.0.5-10.0.0.3'' = Inr []"
    using start_stop_expansion[of 10 0 0 5 10 0 0 3] unfolding d v by simp
  have c: "ListIPAddresses ''192.168.255.254-192.169.0.1'' =
     Inr [''192.168.255.254'', ''192.168.255.255'', ''192.169.0.0'', ''192.169.0.1'']"
    using start_stop_expansion[of 192 168 255 254 192 169 0 1] unfolding d v 3 by simp
  from a b c show ?thesis by simp
qed

text \<open>
  C6: A CIDR token with octets up to 255 and a prefix length \<open>P\<close> from 1 to 32 (the
  tokens the parser accepts) expands to the dotted-quad texts of the \<open>2^(32-P)\<close> integers
  from the network address on, ascending; the network address is the multiple of
  \<open>2^(32-P)\<close> at or below the value of the base address. This holds for every base
  address, those from 128.0.0.0 on included.
\<close>

theorem cidr_expansion:
  assumes "a \<le> 255" "b \<le> 255" "c \<le> 255" "d \<le> 255" "1 \<le> P" "P \<le> 32"
  shows "ListIPAddresses (dotted a b c d @ ''/'' @ dec P) =
           Inr (map ip_text [network (ip_value a b c d) P ..
                             network (ip_value a b c d) P + 2 ^ (32 - P) - 1]) \<and>
         length (map ip_text [network (ip_value a b c d) P ..
                              network (ip_value a b c d) P + 2 ^ (32 - P) - 1]) = 2 ^ (32 - P) \<and>
         network (ip_value a b c d) P mod 2 ^ (32 - P) = 0 \<and>
         network (ip_value a b c d) P \<le> ip_value a b c d \<and>
         ip_value a b c d < network (ip_value a b c d) P + 2 ^ (32 - P)"
  using cidr_parse[OF assms] cidr_count[of "ip_value a b c d" P]
    network_props(1-3)[OF ip_value_bounds(1)[OF assms(1-4)], of P]
  by (intro conjI)

theorem cidr_expansion_witness:
  "ListIPAddresses ''10.0.0.0/30'' = Inr [''10.0.0.0'', ''10.0.0.1'', ''10.0.0.2'', ''10.0.0.3''] \<and>
   ListIPAddresses ''192.168.1.77/30'' =
     Inr [''192.168.1.76'', ''192.168.1.77'', ''192.168.1.78'', ''192.168.1.79'']"
proof -
  have d: "dotted 10 0 0 0 = ''10.0.0.0''" "dotted 192 168 1 77 = ''192.168.1.77''"
    "dec 30 = ''30''"
    by code_simp+
  have v: "ip_value 10 0 0 0 = 167772160" "ip_value 192 168 1 77 = 3232235853"
    by (simp_all add: ip_value_def)
  have n: "network 167772160 30 = 167772160" "network 3232235853 30 = 3232235852"
    by (simp_all add: network_def)
  have 1: "map ip_text [167772160 .. 167772160 + 2 ^ (32 - 30) - 1] =
      [''10.0.0.0'', ''10.0.0.1'', ''10.0.0.2'', ''10.0.0.3'']"
    by code_simp
  have 2: "map ip_text [3232235852 .. 3232235852 + 2 ^ (32 - 30) - 1] =
      [''192.168.1.76'', ''192.168.1.77'', ''192.168.1.78'', ''192.168.1.79'']"
    by code_simp
  have a: "ListIPAddresses ''10.0.0.0/30'' =
      Inr [''10.0.0.0'', ''10.0.0.1'', ''10.0.0.2'', ''10.0.0.3'']"
    using cidr_expansion[of 10 0 0 0 30] unfolding d v n 1 by simp
  have b: "ListIPAddresses ''192.168.1.77/30'' =
      Inr [''192.168.1.76'', ''192.168.1.77'', ''192.168.1.78'', ''192.168.1.79'']"
    using cidr_expansion[of 192 168 1 77 30] unfolding d v n 2 by simp
  from a b show ?thesis by simp
qed




text \<open>
  C8: A per-host block is emitted for exactly the hosts of the dataset whose address
  occurs in the expanded target list and that have at least one non-empty port category,
  in dataset order; every other host, a targeted one without ports included, adds no text
  and is not counted in the number of hosts up.
\<close>

theorem createPortScanResults_included_hosts:
  "\<exists>targetlist. ListIPAddresses commandString = Inr targetlist \<and>
     createPortScanResults data commandString =
       Inr (''Starting Nmap 7.95 ( https://nmap.org )'' @ CRLF @
            concat (map (host_block (pingScan_of commandString))
              (filter (\<lambda>machine. IP machine \<in> set targetlist \<and>
                         (PortsOpen machine \<noteq> [] \<or> PortsClosed machine \<noteq> [] \<or>
                          PortsFiltered machine \<noteq> [])) data)) @
            trailer (length targetlist)
              (length (filter (\<lambda>machine. IP machine \<in> set targetlist \<and>
                         (PortsOpen machine \<noteq> [] \<or> PortsClosed machine \<noteq> [] \<or>
                          PortsFiltered machine \<noteq> [])) data)))"
proof -
  from ListIPAddresses_no_error obtain targetlist
    where t: "ListIPAddresses commandString = Inr targetlist" by blast
  have "host_included targetlist =
        (\<lambda>machine. IP machine \<in> set targetlist \<and>
           (PortsOpen machine \<noteq> [] \<or> PortsClosed machine \<noteq> [] \<or> PortsFiltered machine \<noteq> []))"
    by (auto simp: host_included_def fun_eq_iff)
  with createPortScanResults_closed[OF t, of data] t show ?thesis
    by auto
qed

theorem createPortScanResults_included_hosts_witness:
  "createPortScanResults
     [\<lparr>IP = ''10.0.0.1'', PortsOpen = ''22'', PortsClosed = '''', PortsFiltered = '''', Latency = ''0.01''\<rparr>,
      \<lparr>IP = ''10.0.0.2'', PortsOpen = '''', PortsClosed = '''', PortsFiltered = '''', Latency = ''0.02''\<rparr>,
      \<lparr>IP = ''10.0.0.3'', PortsOpen = ''80'', PortsClosed = '''', PortsFiltered = '''', Latency = ''0.03''\<rparr>]
     ''nmap 10.0.0.1-10.0.0.2'' =
   Inr (''Starting Nmap 7.95 ( https://nmap.org )'' @ CRLF @
        ''Nmap scan report for 10.0.0.1'' @ CRLF @
        ''Host it up (0.01s latency).'' @ CRLF @
        ''PORT         STATE    SERVICE'' @ CRLF @
        ''22/tcp  open '' @ CRLF @
        CRLF @
        ''Nmap done: 2 IP addresses (1 host up) scanned in 26.18 seconds'' @ CRLF)"
  (is "createPortScanResults ?data ?cmd = Inr ?text")
proof -
  have l: "ListIPAddresses ?cmd = Inr [''10.0.0.1'', ''10.0.0.2'']"
    by code_simp
  from createPortScanResults_included_hosts[of ?cmd ?data] obtain targetlist where
    t: "ListIPAddresses ?cmd = Inr targetlist" and
    r: "createPortScanResults ?data ?cmd =
       Inr (''Starting Nmap 7.95 ( https://nmap.org )'' @ CRLF @
            concat (map (host_block (pingScan_of ?cmd))
              (filter (\<lambda>machine. IP machine \<in> set targetlist \<and>
                         (PortsOpen machine \<noteq> [] \<or> PortsClosed machine \<noteq> [] \<or>
                          PortsFiltered machine \<noteq> [])) ?data)) @
            trailer (length targetlist)
              (length (filter (\<lambda>machine. IP machine \<in> set targetlist \<and>
                         (PortsOpen machine \<noteq> [] \<or> PortsClosed machine \<noteq> [] \<or>
                          PortsFiltered machine \<noteq> [])) ?data)))"
    by blast
  from t l have tl: "targetlist = [''10.0.0.1'', ''10.0.0.2'']" by simp
  have "Inr (''Starting Nmap 7.95 ( https://nmap.org )'' @ CRLF @
            concat (map (host_block (pingScan_of ?cmd))
              (filter (\<lambda>machine. IP machine \<in> set [''10.0.0.1'', ''10.0.0.2''] \<and>
                         (PortsOpen machine \<noteq> [] \<or> PortsClosed machine \<noteq> [] \<or>
                          PortsFiltered machine \<noteq> [])) ?data)) @
            trailer (length [''10.0.0.1'', ''10.0.0.2''])
              (length (filter (\<lambda>machine. IP machine \<in> set [''10.0.0.1'', ''10.0.0.2''] \<and>
                         (PortsOpen machine \<noteq> [] \<or> PortsClosed machine \<noteq> [] \<or>
                          PortsFiltered machine \<noteq> [])) ?data))) = (Inr ?text :: js_error + string)"
    by code_simp
  with r tl show ?thesis by simp
qed

text \<open>
  C9: The report ends with one trailer line: the number of requested addresses is the
  length of the expanded target list (duplicates and addresses absent from the dataset
  counted), the number of hosts up is the number of included hosts, and the elapsed
  time is the literal 26.18 seconds.
\<close>

theorem createPortScanResults_trailer:
  "\<exists>targetlist body. ListIPAddresses commandString = Inr targetlist \<and>
     createPortScanResults data commandString =
       Inr (body @ ''Nmap done: '' @ dec (length targetlist) @ '' IP addresses ('' @
            dec (length (filter (host_included targetlist) data)) @
            '' host up) scanned in 26.18 seconds'' @ CRLF) \<and>
     body = ''Starting Nmap 7.95 ( https://nmap.org )'' @ CRLF @
            concat (map (host_block (pingScan_of commandString))
                        (filter (host_included targetlist) data))"
proof -
  from ListIPAddresses_no_error obtain targetlist
    where t: "ListIPAddresses commandString = Inr targetlist" by blast
  from createPortScanResults_closed[OF t, of data] t show ?thesis
    by (simp add: trailer_def)
qed

theorem createPortScanResults_trailer_witness:
  "createPortScanResults
     [\<lparr>IP = ''10.0.0.1'', PortsOpen = ''22'', PortsClosed = '''', PortsFiltered = '''', Latency = ''0.01''\<rparr>]
     ''nmap -sn 10.0.0.1 10.0.0.1 10.0.0.9'' =
   Inr (''Starting Nmap 7.95 ( https://nmap.org )'' @ CRLF @
        ''Nmap scan report for 10.0.0.1'' @ CRLF @
        ''Host it up (0.01s latency).'' @ CRLF @
        ''Nmap done: 3 IP addresses (1 host up) scanned in 26.18 seconds'' @ CRLF)"
  (is "createPortScanResults ?data ?cmd = Inr ?text")
proof -
  have l: "ListIPAddresses ?cmd = Inr [''10.0.0.9'', ''10.0.0.1'', ''10.0.0.1'']"
    by code_simp
  from createPortScanResults_trailer[of ?cmd ?data] obtain targetlist body where
    t: "ListIPAddresses ?cmd = Inr targetlist" and
    r: "createPortScanResults ?data ?cmd =
       Inr (body @ ''Nmap done: '' @ dec (length targetlist) @ '' IP addresses ('' @
            dec (length (filter (host_included targetlist) ?data)) @
            '' host up) scanned in 26.18 seconds'' @ CRLF)" and
    b: "body = ''Starting Nmap 7.95 ( https://nmap.org )'' @ CRLF @
            concat (map (host_block (pingScan_of ?cmd))
                        (filter (host_included targetlist) ?data))"
    by blast
  from t l have tl: "targetlist = [''10.0.0.9'', ''10.0.0.1'', ''10.0.0.1'']" by simp
  have "Inr ((''Starting Nmap 7.95 ( https://nmap.org )'' @ CRLF @
            concat (map (host_block (pingScan_of ?cmd))
                        (filter (host_included [''10.0.0.9'', ''10.0.0.1'', ''10.0.0.1'']) ?data))) @
          ''Nmap done: '' @ dec (length [''10.0.0.9'', ''10.0.0.1'', ''10.0.0.1'']) @ '' IP addresses ('' @
            dec (length (filter (host_included [''10.0.0.9'', ''10.0.0.1'', ''10.0.0.1'']) ?data)) @
            '' host up) scanned in 26.18 seconds'' @ CRLF) = (Inr ?text :: js_error + string)"
    by code_simp
  with r b tl show ?thesis by simp
qed

text \<open>
  C10: ListIPAddresses terminates on every command string. The text matched by
  \<open>testAnyMatch\<close> is never empty and one occurrence of it is removed in each iteration,
  so the command text gets strictly shorter: the relation between the command text
  before and after an iteration is well-founded, and the function returns a list.
\<close>

theorem ListIPAddresses_terminates:
  "wf {(s', s). \<exists>tok. js_match testAnyMatch s = Some tok \<and> s' = strip_token tok s} \<and>
   (js_match testAnyMatch s = Some tok \<longrightarrow> tok \<noteq> [] \<and> length (strip_token tok s) < length s) \<and>
   (\<exists>l. ListIPAddresses commandString = Inr l)"
proof -
  have "{(s', s). \<exists>tok. js_match testAnyMatch s = Some tok \<and> s' = strip_token tok s}
        \<subseteq> measure length"
    using strip_token_shorter by auto
  then have "wf {(s', s). \<exists>tok. js_match testAnyMatch s = Some tok \<and> s' = strip_token tok s}"
    by (rule wf_subset[OF wf_measure])
  with strip_token_shorter ListIPAddresses_no_error show ?thesis by blast
qed

theorem ListIPAddresses_terminates_witness:
  "js_match testAnyMatch ''1.1.1.1 x 1.1.1.1'' = Some ''1.1.1.1'' \<and>
   length (strip_token ''1.1.1.1'' ''1.1.1.1 x 1.1.1.1'') < length ''1.1.1.1 x 1.1.1.1'' \<and>
   ListIPAddresses ''1.1.1.1 x 1.1.1.1'' = Inr [''1.1.1.1'', ''1.1.1.1'']"
proof -
  have m: "js_match testAnyMatch ''1.1.1.1 x 1.1.1.1'' = Some ''1.1.1.1''"
    by code_simp
  have l: "ListIPAddresses ''1.1.1.1 x 1.1.1.1'' = Inr [''1.1.1.1'', ''1.1.1.1'']"
    by code_simp
  from ListIPAddresses_terminates[of "''1.1.1.1 x 1.1.1.1''" "''1.1.1.1''"] m l
  show ?thesis by blast
qed

end
